theory Spec2Isabelle
  imports Main "HOL-Library.Multiset" "HOL-Library.Log_Nat"
begin

section \<open>Python strings\<close>

text \<open>
  A Python \<^verbatim>\<open>str\<close> is modelled by \<^typ>\<open>string\<close>. The model covers ASCII text, which is what
  FASTA files hold: the whitespace characters are the ASCII ones that \<^verbatim>\<open>str.isspace\<close>
  accepts (tab, line feed, vertical tab, form feed, carriage return, the four separators
  0x1C..0x1F and the blank), and \<^verbatim>\<open>str.upper\<close> maps a..z to A..Z and leaves every other
  character alone. A file is the list of its lines, as iterating over the file object
  yields them.
\<close>

datatype py_error = IndexError | KeyError | ZeroDivisionError | SystemExit nat

definition is_space :: "char \<Rightarrow> bool" where
  "is_space c \<longleftrightarrow> c \<in> set [CHR 0x09, CHR 0x0A, CHR 0x0B, CHR 0x0C, CHR 0x0D,
     CHR 0x1C, CHR 0x1D, CHR 0x1E, CHR 0x1F, CHR '' '']"

definition lstrip :: "string \<Rightarrow> string" where
  "lstrip s = dropWhile is_space s"

definition rstrip :: "string \<Rightarrow> string" where
  "rstrip s = rev (dropWhile is_space (rev s))"

definition strip :: "string \<Rightarrow> string" where
  "strip s = rstrip (lstrip s)"

definition rstrip_nl :: "string \<Rightarrow> string" where
  \<comment> \<open>\<^verbatim>\<open>line.rstrip('\n')\<close>\<close>
  "rstrip_nl s = rev (dropWhile (\<lambda>c. c = CHR 0x0A) (rev s))"

definition startswith :: "string \<Rightarrow> char \<Rightarrow> bool" where
  "startswith s c = (case s of [] \<Rightarrow> False | x # _ \<Rightarrow> x = c)"

definition upper_char :: "char \<Rightarrow> char" where
  "upper_char c =
     (case map_of (zip ''abcdefghijklmnopqrstuvwxyz'' ''ABCDEFGHIJKLMNOPQRSTUVWXYZ'') c of
        Some u \<Rightarrow> u
      | None \<Rightarrow> c)"

definition upper :: "string \<Rightarrow> string" where
  "upper s = map upper_char s"

text \<open>
  \<^verbatim>\<open>s.split()\<close>: the maximal runs of non-whitespace characters, left to right. The first
  argument is the token being read.
\<close>

fun split_from :: "string \<Rightarrow> string \<Rightarrow> string list" where
  "split_from cur [] = (if cur = [] then [] else [cur])"
| "split_from cur (c # cs) =
     (if is_space c
      then (if cur = [] then split_from [] cs else cur # split_from [] cs)
      else split_from (cur @ [c]) cs)"

definition split :: "string \<Rightarrow> string list" where
  "split s = split_from [] s"

definition first_token :: "string \<Rightarrow> py_error + string" where
  \<comment> \<open>\<^verbatim>\<open>s.split()[0]\<close>, which raises IndexError on an empty list\<close>
  "first_token s = (case split s of [] \<Rightarrow> Inl IndexError | t # _ \<Rightarrow> Inr t)"

section \<open>The N-run scanner (checkforNs.py)\<close>

subsection \<open>The FASTA parser of the scanner\<close>

type_synonym fasta_record = "string \<times> string"

definition truthy :: "string option \<Rightarrow> bool" where
  \<comment> \<open>\<^verbatim>\<open>if name:\<close> for a name that is None or a string\<close>
  "truthy v = (case v of None \<Rightarrow> False | Some s \<Rightarrow> s \<noteq> [])"

definition yield_rec :: "string option \<Rightarrow> string list \<Rightarrow> fasta_record list" where
  "yield_rec nm seq_lines = (if truthy nm then [(the nm, concat seq_lines)] else [])"

text \<open>
  The generator \<^verbatim>\<open>parse_fasta\<close>, as the list of the records it yields and the exception
  that ends it, if one does. The state of the loop is the current name and the sequence
  lines read for it. A marker line first yields the record before it and only then takes
  its own name, so the records before a marker line with no name are yielded.
\<close>

fun parse_loop :: "string option \<Rightarrow> string list \<Rightarrow> string list
    \<Rightarrow> fasta_record list \<times> py_error option" where
  "parse_loop nm seq_lines [] = (yield_rec nm seq_lines, None)"
| "parse_loop nm seq_lines (l # ls) =
     (let line = rstrip l in
      if line = [] then parse_loop nm seq_lines ls
      else if startswith line (CHR ''>'') then
        (case first_token (tl line) of
           Inl err \<Rightarrow> (yield_rec nm seq_lines, Some err)
         | Inr tok \<Rightarrow>
             (let (recs, err) = parse_loop (Some tok) [] ls
              in (yield_rec nm seq_lines @ recs, err)))
      else parse_loop nm (seq_lines @ [upper line]) ls)"

definition scan_parse_fasta :: "string list \<Rightarrow> fasta_record list \<times> py_error option" where
  "scan_parse_fasta fp = parse_loop None [] fp"

subsection \<open>Runs of N\<close>

text \<open>
  \<^verbatim>\<open>re.finditer(r"N+", seq)\<close>: the matches as (start, end) pairs, 0-based and half open.
  The search goes left to right; at an N the greedy match takes every N that follows,
  and the search goes on where the match ended. The first argument is the position of
  the rest of the sequence in the whole.
\<close>

fun finditer_Nplus :: "nat \<Rightarrow> string \<Rightarrow> (nat \<times> nat) list" where
  "finditer_Nplus i [] = []"
| "finditer_Nplus i (c # cs) =
     (if c = CHR ''N''
      then (let k = length (takeWhile (\<lambda>x. x = CHR ''N'') cs)
            in (i, i + 1 + k) # finditer_Nplus (i + 1 + k) (drop k cs))
      else finditer_Nplus (i + 1) cs)"

definition covered :: "(nat \<times> nat) list \<Rightarrow> nat set" where
  "covered ms = (\<Union>(s, e) \<in> set ms. {s..<e})"

definition N_positions :: "string \<Rightarrow> nat set" where
  "N_positions S = {p. p < length S \<and> S ! p = CHR ''N''}"

subsection \<open>The fraction and its printed form\<close>

text \<open>
  \<^verbatim>\<open>total_Ns / seqlen\<close> is Python's true division of two integers: it raises
  ZeroDivisionError on a zero divisor and otherwise gives the binary64 number nearest the
  quotient, ties to even. A binary64 number is kept as the rational it denotes. For a
  positive \<open>x\<close>, \<open>binade x\<close> is the exponent \<open>e\<close> with \<open>2\<^sup>e \<le> x < 2\<^sup>e\<^sup>+\<^sup>1\<close>, found from the bit
  lengths of numerator and denominator, and the spacing of binary64 numbers there is
  \<open>2\<^sup>e\<^sup>-\<^sup>5\<^sup>2\<close>. Subnormal numbers and overflow are not modelled: the quotients of the scanner
  lie between the reciprocal of a string length and 1. \<^verbatim>\<open>f"{frac:.6f}"\<close> prints the multiple
  of \<open>10\<^sup>-\<^sup>6\<close> nearest the binary64 number, ties to even; \<open>format_6f\<close> gives that multiple
  in units of \<open>10\<^sup>-\<^sup>6\<close>.
\<close>

definition round_half_even :: "rat \<Rightarrow> int" where
  "round_half_even x =
     (let f = \<lfloor>x\<rfloor>; d = x - of_int f
      in if d < 1 / 2 then f else if 1 / 2 < d then f + 1 else if even f then f else f + 1)"

definition binade :: "rat \<Rightarrow> int" where
  "binade x =
     (let (n, d) = quotient_of x; e0 = bitlen n - bitlen d
      in if 2 powi e0 \<le> x then e0 else e0 - 1)"

definition to_binary64 :: "rat \<Rightarrow> rat" where
  "to_binary64 x =
     (if x = 0 then 0
      else (let u = 2 powi (binade x - 52) in of_int (round_half_even (x / u)) * u))"

definition true_div :: "nat \<Rightarrow> nat \<Rightarrow> py_error + rat" where
  "true_div a b = (if b = 0 then Inl ZeroDivisionError else Inr (to_binary64 (of_nat a / of_nat b)))"

definition format_6f :: "rat \<Rightarrow> int" where
  "format_6f x = round_half_even (x * 1000000)"

subsection \<open>The scan loop\<close>

text \<open>
  The rows written to the two reports are kept as records of their fields; the text of a
  row is the fields in decimal, joined by tabs. In a TSV row \<open>n_run_positions\<close> holds the runs
  in 1-based inclusive coordinates (the text joins them as \<^verbatim>\<open>s-e\<close> with semicolons); a BED row
  holds a run in 0-based half-open coordinates, and its name \<^verbatim>\<open>{name}_Nrun_{s}_{e}\<close> is kept
  as the triple of its parts. \<open>scan_record\<close> is one pass of the body of the main loop: the
  rows it appends to the TSV and to the BED report, or the exception it raises.
  \<open>scan_loop\<close> runs it over the records that the parser yields, and \<open>scanner\<close> is the whole
  run: the two reports (after their header rows) and the exception that ended the run,
  if one did.
\<close>

record tsv_row =
  contig :: string
  contig_len :: nat
  total_Ns :: nat
  frac_N :: int
  n_N_runs :: nat
  n_run_positions :: "(nat \<times> nat) list"

record bed_row =
  chrom :: string
  chrom_start :: nat
  chrom_end :: nat
  run_name :: "string \<times> nat \<times> nat"
  N_len :: nat

definition bed_line :: "string \<Rightarrow> nat \<times> nat \<Rightarrow> bed_row" where
  "bed_line nm m = (case m of (ms, me) \<Rightarrow>
     \<lparr>chrom = nm, chrom_start = ms, chrom_end = me, run_name = (nm, ms + 1, me), N_len = me - ms\<rparr>)"

definition scan_record :: "fasta_record \<Rightarrow> py_error + (tsv_row list \<times> bed_row list)" where
  "scan_record r = (case r of (nm, seq) \<Rightarrow>
     (let seqlen = length seq;
          total = count_list seq (CHR ''N'')
      in if total = 0 then Inr ([], [])
         else (case true_div total seqlen of
                 Inl err \<Rightarrow> Inl err
               | Inr frac' \<Rightarrow>
                   (let ms = finditer_Nplus 0 seq;
                        runs = map (\<lambda>(s, e). (s + 1, e)) ms
                    in Inr ([\<lparr>contig = nm, contig_len = seqlen, total_Ns = total,
                               frac_N = format_6f frac', n_N_runs = length runs,
                               n_run_positions = runs\<rparr>],
                            map (bed_line nm) ms)))))"

record outputs =
  tsv :: "tsv_row list"
  bed :: "bed_row list"

fun scan_loop :: "outputs \<Rightarrow> fasta_record list \<Rightarrow> outputs \<times> py_error option" where
  "scan_loop out [] = (out, None)"
| "scan_loop out (r # rs) =
     (case scan_record r of
        Inl err \<Rightarrow> (out, Some err)
      | Inr (rows, beds) \<Rightarrow> scan_loop (out\<lparr>tsv := tsv out @ rows, bed := bed out @ beds\<rparr>) rs)"

definition scanner :: "string list \<Rightarrow> outputs \<times> py_error option" where
  "scanner fh =
     (let (recs, perr) = scan_parse_fasta fh;
          (out, serr) = scan_loop \<lparr>tsv = [], bed = []\<rparr> recs
      in (out, case serr of Some err \<Rightarrow> Some err | None \<Rightarrow> perr))"

text \<open>
  What the scanner reports for one record: the rows that the pass of the loop body over
  the record appends to the TSV report and to the BED report.
\<close>

definition reported :: "fasta_record \<Rightarrow> tsv_row list \<times> bed_row list" where
  "reported r = (case scan_record r of Inr rep \<Rightarrow> rep | Inl err \<Rightarrow> ([], []))"

definition bed_spans :: "bed_row list \<Rightarrow> (nat \<times> nat) list" where
  "bed_spans beds = map (\<lambda>b. (chrom_start b, chrom_end b)) beds"

section \<open>The reorder tool (reordercontigs.py)\<close>

subsection \<open>Parsing, the order list, the index, matching and writing\<close>

text \<open>
  \<open>reorder_parse_fasta\<close> is \<^verbatim>\<open>parse_fasta\<close> of the reorder tool: the loop over the lines with its
  four variables, giving the list of headers in file order and the dictionary from a header
  to its sequence, in which a repeated header keeps the sequence read last. The
  dictionaries are maps. \<open>write_seq\<close> gives the strings written, one per call of
  \<^verbatim>\<open>outfh.write\<close>; \<open>chunks\<close> are the slices \<^verbatim>\<open>seq[i:i+wrap]\<close> for \<^verbatim>\<open>i\<close> in
  \<^verbatim>\<open>range(0, len(seq), wrap)\<close>. \<open>build_index\<close> is the loop that fills \<^verbatim>\<open>name_to_headers\<close>; it
  raises IndexError at a header with no token. \<open>match_entry\<close> is one pass of the matching
  loop over the state \<open>(ordered_headers, used, not_found)\<close>, and \<open>first_unused\<close> its inner loop
  with the \<^verbatim>\<open>break\<close>. \<open>main\<close> is the run of the tool on the lines of the FASTA file and of the
  order file: the exit with status 1 when there is no header, an exception, or the result;
  the result holds the calls of \<^verbatim>\<open>write_seq\<close> in order (\<open>written\<close>), the lines of the output
  file, and the numbers and entries of the summary.
\<close>

fun rparse_loop :: "string list \<Rightarrow> (string \<rightharpoonup> string) \<Rightarrow> string option \<Rightarrow> string list
    \<Rightarrow> string list \<Rightarrow> string list \<times> (string \<rightharpoonup> string)" where
  "rparse_loop headers seqs cur_h cur_seq_parts [] =
     (headers, case cur_h of None \<Rightarrow> seqs | Some h \<Rightarrow> seqs(h \<mapsto> concat cur_seq_parts))"
| "rparse_loop headers seqs cur_h cur_seq_parts (l # ls) =
     (let line = rstrip_nl l in
      if line = [] then rparse_loop headers seqs cur_h cur_seq_parts ls
      else if startswith line (CHR ''>'') then
        (let seqs' = (case cur_h of None \<Rightarrow> seqs | Some h \<Rightarrow> seqs(h \<mapsto> concat cur_seq_parts));
             h' = strip (tl line)
         in rparse_loop (headers @ [h']) seqs' (Some h') [] ls)
      else rparse_loop headers seqs cur_h (cur_seq_parts @ [strip line]) ls)"

definition reorder_parse_fasta :: "string list \<Rightarrow> string list \<times> (string \<rightharpoonup> string)" where
  "reorder_parse_fasta fh = rparse_loop [] Map.empty None [] fh"

definition py_range :: "nat \<Rightarrow> nat \<Rightarrow> nat list" where
  "py_range n step = map (\<lambda>k. k * step) [0..<(n + step - 1) div step]"

definition slice :: "string \<Rightarrow> nat \<Rightarrow> nat \<Rightarrow> string" where
  "slice s i j = take (j - i) (drop i s)"

definition chunks :: "string \<Rightarrow> nat \<Rightarrow> string list" where
  "chunks seq w = map (\<lambda>i. slice seq i (i + w)) (py_range (length seq) w)"

definition write_seq :: "string \<Rightarrow> string \<Rightarrow> int \<Rightarrow> string list" where
  "write_seq header seq wrap =
     (CHR ''>'' # header @ [CHR 0x0A]) #
     (if wrap \<noteq> 0 \<and> wrap > 0
      then map (\<lambda>c. c @ [CHR 0x0A]) (chunks seq (nat wrap))
      else [seq @ [CHR 0x0A]])"

fun read_order_list :: "string list \<Rightarrow> string list" where
  "read_order_list [] = []"
| "read_order_list (l # lns) =
     (let s = strip l in
      if s = [] \<or> startswith s (CHR ''#'') then read_order_list lns
      else (if startswith s (CHR ''>'') then strip (tl s) else s) # read_order_list lns)"

fun build_index :: "(string \<rightharpoonup> string list) \<Rightarrow> string list \<Rightarrow> py_error + (string \<rightharpoonup> string list)" where
  "build_index name_to_headers [] = Inr name_to_headers"
| "build_index name_to_headers (h # hs) =
     (case first_token h of
        Inl err \<Rightarrow> Inl err
      | Inr first \<Rightarrow>
          build_index
            (name_to_headers(first \<mapsto> (case name_to_headers first of None \<Rightarrow> [] | Some l \<Rightarrow> l) @ [h]))
            hs)"

record match_state =
  ordered_headers :: "string list"
  used :: "string set"
  not_found :: "string list"

fun first_unused :: "string set \<Rightarrow> string list \<Rightarrow> string option" where
  "first_unused u [] = None"
| "first_unused u (ch # chs) = (if ch \<notin> u then Some ch else first_unused u chs)"

definition take_header :: "match_state \<Rightarrow> string \<Rightarrow> match_state" where
  "take_header st h = st\<lparr>ordered_headers := ordered_headers st @ [h], used := insert h (used st)\<rparr>"

definition miss :: "match_state \<Rightarrow> string \<Rightarrow> match_state" where
  "miss st entry = st\<lparr>not_found := not_found st @ [entry]\<rparr>"

definition match_entry :: "(string \<rightharpoonup> string) \<Rightarrow> (string \<rightharpoonup> string list) \<Rightarrow> match_state \<Rightarrow> string
    \<Rightarrow> match_state" where
  "match_entry seqs name_to_headers st entry =
     (if seqs entry \<noteq> None \<and> entry \<notin> used st then take_header st entry
      else (case name_to_headers entry of
              None \<Rightarrow> miss st entry
            | Some chs \<Rightarrow>
                (case first_unused (used st) chs of
                   None \<Rightarrow> miss st entry
                 | Some choice \<Rightarrow> if choice \<noteq> [] then take_header st choice else miss st entry)))"

definition match_loop :: "(string \<rightharpoonup> string) \<Rightarrow> (string \<rightharpoonup> string list) \<Rightarrow> string list \<Rightarrow> match_state" where
  "match_loop seqs name_to_headers order_list =
     foldl (match_entry seqs name_to_headers)
       \<lparr>ordered_headers = [], used = {}, not_found = []\<rparr> order_list"

fun lookup_all :: "(string \<rightharpoonup> string) \<Rightarrow> string list \<Rightarrow> py_error + (string \<times> string) list" where
  "lookup_all seqs [] = Inr []"
| "lookup_all seqs (h # hs) =
     (case seqs h of
        None \<Rightarrow> Inl KeyError
      | Some s \<Rightarrow> (case lookup_all seqs hs of Inl err \<Rightarrow> Inl err | Inr rs \<Rightarrow> Inr ((h, s) # rs)))"

definition render :: "int \<Rightarrow> (string \<times> string) list \<Rightarrow> string list" where
  "render wrap recs = concat (map (\<lambda>(h, s). write_seq h s wrap) recs)"

record reorder_result =
  written :: "(string \<times> string) list"
  out_lines :: "string list"
  n_ordered :: nat
  appended :: nat
  unmatched :: "string list"

definition main :: "string list \<Rightarrow> string list \<Rightarrow> int \<Rightarrow> py_error + reorder_result" where
  "main fasta order_file wrap =
     (case reorder_parse_fasta fasta of (headers, seqs) \<Rightarrow>
        if headers = [] then Inl (SystemExit 1)
        else (case build_index Map.empty headers of
                Inl err \<Rightarrow> Inl err
              | Inr name_to_headers \<Rightarrow>
                  (let st = match_loop seqs name_to_headers (read_order_list order_file);
                       rest = filter (\<lambda>h. h \<notin> used st) headers
                   in (case lookup_all seqs (ordered_headers st @ rest) of
                         Inl err \<Rightarrow> Inl err
                       | Inr recs \<Rightarrow>
                           Inr \<lparr>written = recs, out_lines = render wrap recs,
                                n_ordered = length (ordered_headers st), appended = length rest,
                                unmatched = not_found st\<rparr>))))"

subsection \<open>The matching policy, and notions used in the proofs\<close>

text \<open>
  The resolution policy in the words of the specification: an entry that is a full header
  not yet consumed resolves to that header; otherwise it resolves to the first header, in
  file order, whose first token is the entry and that is not yet consumed; otherwise it is
  not found. \<open>spec_step\<close> is the step of the matching loop that this policy gives, and
  \<open>spec_loop\<close> the loop of these steps from the empty state.
\<close>

definition resolve_spec :: "string list \<Rightarrow> string set \<Rightarrow> string \<Rightarrow> string option" where
  "resolve_spec headers u entry =
     (if entry \<in> set headers \<and> entry \<notin> u then Some entry
      else find (\<lambda>h. first_token h = Inr entry \<and> h \<notin> u) headers)"

definition spec_step :: "string list \<Rightarrow> match_state \<Rightarrow> string \<Rightarrow> match_state" where
  "spec_step headers st entry =
     (case resolve_spec headers (used st) entry of
        Some h \<Rightarrow> take_header st h
      | None \<Rightarrow> miss st entry)"

definition spec_loop :: "string list \<Rightarrow> string list \<Rightarrow> match_state" where
  "spec_loop headers es =
     foldl (spec_step headers) \<lparr>ordered_headers = [], used = {}, not_found = []\<rparr> es"

text \<open>The headers that the parser returns are read off the marker lines.\<close>

definition is_marker :: "string \<Rightarrow> bool" where
  "is_marker l = startswith (rstrip_nl l) (CHR ''>'')"

definition header_of :: "string \<Rightarrow> string" where
  "header_of l = strip (tl (rstrip_nl l))"

text \<open>The invariant of the matching loop.\<close>

definition match_inv :: "string list \<Rightarrow> match_state \<Rightarrow> bool" where
  "match_inv headers st \<longleftrightarrow>
     distinct (ordered_headers st) \<and> used st = set (ordered_headers st) \<and>
     set (ordered_headers st) \<subseteq> set headers"

text \<open>The headers of the records written: the chosen ones, then the ones left over.\<close>

definition final_headers :: "string list \<Rightarrow> string list \<Rightarrow> string list" where
  "final_headers headers es =
     ordered_headers (spec_loop headers es) @
     filter (\<lambda>h. h \<notin> used (spec_loop headers es)) headers"

subsection \<open>The records of a FASTA file\<close>

text \<open>
  The records of a FASTA file in file order, as the reorder tool reads them: each marker
  line gives a header (the line without the marker, stripped), and the sequence of the
  record is the concatenation of the stripped non-empty lines up to the next marker line.
  Lines before the first marker line belong to no record. \<open>store\<close> enters records into a
  dictionary one after the other, so a later record with the same header overwrites an
  earlier one. The parser returns the headers of these records and their store.
\<close>

definition emit :: "string option \<Rightarrow> string list \<Rightarrow> (string \<times> string) list" where
  "emit cur parts = (case cur of None \<Rightarrow> [] | Some h \<Rightarrow> [(h, concat parts)])"

fun records_loop :: "string option \<Rightarrow> string list \<Rightarrow> string list \<Rightarrow> (string \<times> string) list" where
  "records_loop cur parts [] = emit cur parts"
| "records_loop cur parts (l # ls) =
     (let line = rstrip_nl l in
      if line = [] then records_loop cur parts ls
      else if startswith line (CHR ''>'')
           then emit cur parts @ records_loop (Some (strip (tl line))) [] ls
           else records_loop cur (parts @ [strip line]) ls)"

definition fasta_records :: "string list \<Rightarrow> (string \<times> string) list" where
  "fasta_records fh = records_loop None [] fh"

definition store :: "(string \<rightharpoonup> string) \<Rightarrow> (string \<times> string) list \<Rightarrow> (string \<rightharpoonup> string)" where
  "store m rs = foldl (\<lambda>m (h, s). m(h \<mapsto> s)) m rs"

text \<open>
  A character of sequence text that reads back as written: neither the marker nor
  whitespace.
\<close>

definition plain_char :: "char \<Rightarrow> bool" where
  "plain_char c \<longleftrightarrow> c \<noteq> CHR ''>'' \<and> \<not> is_space c"

section \<open>Properties of the scanner\<close>

subsection \<open>The reported runs cover the positions of N\<close>

lemma covered_Nil: "covered [] = {}"
  by (simp add: covered_def)

lemma covered_Cons: "covered ((s, e) # ms) = {s..<e} \<union> covered ms"
  by (simp add: covered_def)

lemma takeWhile_N_nth:
  assumes "j < length (takeWhile (\<lambda>x. x = CHR ''N'') cs)"
  shows "cs ! j = CHR ''N''"
proof -
  have "takeWhile (\<lambda>x. x = CHR ''N'') cs ! j \<in> set (takeWhile (\<lambda>x. x = CHR ''N'') cs)"
    using assms by (rule nth_mem)
  then have "takeWhile (\<lambda>x. x = CHR ''N'') cs ! j = CHR ''N''"
    by (auto dest: set_takeWhileD)
  with assms show ?thesis by (simp add: takeWhile_nth)
qed

lemma finditer_bounds:
  "(s, e) \<in> set (finditer_Nplus i cs) \<Longrightarrow> i \<le> s \<and> s < e \<and> e \<le> i + length cs"
proof (induction i cs arbitrary: s e rule: finditer_Nplus.induct)
  case (1 i)
  then show ?case by simp
next
  case (2 i c cs)
  show ?case
  proof (cases "c = CHR ''N''")
    case True
    define k where "k = length (takeWhile (\<lambda>x. x = CHR ''N'') cs)"
    have kl: "k \<le> length cs" unfolding k_def by (rule length_takeWhile_le)
    from 2(3) True have "(s, e) = (i, i + 1 + k) \<or> (s, e) \<in> set (finditer_Nplus (i + 1 + k) (drop k cs))"
      by (simp add: k_def Let_def)
    then show ?thesis
    proof
      assume "(s, e) = (i, i + 1 + k)"
      with kl show ?thesis by simp
    next
      assume "(s, e) \<in> set (finditer_Nplus (i + 1 + k) (drop k cs))"
      from 2(1)[OF True k_def this] kl show ?thesis by simp
    qed
  next
    case False
    with 2(3) have "(s, e) \<in> set (finditer_Nplus (i + 1) cs)" by simp
    from 2(2)[OF False this] show ?thesis by simp
  qed
qed

lemma finditer_start_gt:
  assumes "cs = [] \<or> hd cs \<noteq> CHR ''N''" and "(s, e) \<in> set (finditer_Nplus i cs)"
  shows "i < s"
proof (cases cs)
  case Nil
  with assms(2) show ?thesis by simp
next
  case (Cons c cs')
  with assms have "(s, e) \<in> set (finditer_Nplus (i + 1) cs')" by simp
  from finditer_bounds[OF this] show ?thesis by simp
qed

lemma drop_takeWhile_not_N:
  "drop (length (takeWhile (\<lambda>x. x = CHR ''N'') cs)) cs = [] \<or>
   hd (drop (length (takeWhile (\<lambda>x. x = CHR ''N'') cs)) cs) \<noteq> CHR ''N''"
proof -
  have "drop (length (takeWhile (\<lambda>x. x = CHR ''N'') cs)) cs = dropWhile (\<lambda>x. x = CHR ''N'') cs"
    by (simp add: dropWhile_eq_drop)
  moreover have "dropWhile (\<lambda>x. x = CHR ''N'') cs = [] \<or> hd (dropWhile (\<lambda>x. x = CHR ''N'') cs) \<noteq> CHR ''N''"
    using hd_dropWhile[of "\<lambda>x. x = CHR ''N''" cs] by blast
  ultimately show ?thesis by simp
qed

lemma mem_covered_finditer:
  "q \<in> covered (finditer_Nplus i cs) \<longleftrightarrow> i \<le> q \<and> q < i + length cs \<and> cs ! (q - i) = CHR ''N''"
proof (induction i cs rule: finditer_Nplus.induct)
  case (1 i)
  show ?case by (simp add: covered_Nil)
next
  case (2 i c cs)
  show ?case
  proof (cases "c = CHR ''N''")
    case True
    define k where "k = length (takeWhile (\<lambda>x. x = CHR ''N'') cs)"
    have kl: "k \<le> length cs" unfolding k_def by (rule length_takeWhile_le)
    have unf: "finditer_Nplus i (c # cs) = (i, i + 1 + k) # finditer_Nplus (i + 1 + k) (drop k cs)"
      using True by (simp add: k_def Let_def)
    have IH: "q \<in> covered (finditer_Nplus (i + 1 + k) (drop k cs)) \<longleftrightarrow>
        i + 1 + k \<le> q \<and> q < i + 1 + k + length (drop k cs) \<and> drop k cs ! (q - (i + 1 + k)) = CHR ''N''"
      by (rule 2(1)[OF True k_def])
    consider "q < i" | "i \<le> q" "q < i + 1 + k" | "i + 1 + k \<le> q" by linarith
    then show ?thesis
    proof cases
      case 1
      then show ?thesis unfolding unf covered_Cons using IH by auto
    next
      case 2
      have "(c # cs) ! (q - i) = CHR ''N''"
      proof (cases "q = i")
        case True
        with \<open>c = CHR ''N''\<close> show ?thesis by simp
      next
        case False
        with 2 have "q - i = Suc (q - i - 1)" "q - i - 1 < k" by auto
        then show ?thesis using takeWhile_N_nth[of "q - i - 1" cs] by (simp add: k_def)
      qed
      with 2 kl show ?thesis unfolding unf covered_Cons by auto
    next
      case 3
      then have e1: "q - i = Suc (q - i - 1)" by auto
      have e2: "q < i + 1 + k + length (drop k cs) \<longleftrightarrow> q < i + length (c # cs)"
        using kl by auto
      have "q < i + length (c # cs) \<Longrightarrow> drop k cs ! (q - (i + 1 + k)) = cs ! (q - i - 1)"
        using 3 kl by (simp add: nth_drop)
      moreover have "(c # cs) ! (q - i) = cs ! (q - i - 1)"
        by (subst e1) simp
      ultimately show ?thesis unfolding unf covered_Cons using IH 3 e2 by auto
    qed
  next
    case False
    have unf: "finditer_Nplus i (c # cs) = finditer_Nplus (i + 1) cs"
      using False by simp
    have IH: "q \<in> covered (finditer_Nplus (i + 1) cs) \<longleftrightarrow>
        i + 1 \<le> q \<and> q < i + 1 + length cs \<and> cs ! (q - (i + 1)) = CHR ''N''"
      by (rule 2(2)[OF False])
    show ?thesis
    proof (cases "q = i")
      case True
      with False show ?thesis unfolding unf IH by simp
    next
      case False
      show ?thesis
      proof (cases "i < q")
        case True
        then have "q - i = Suc (q - (i + 1))" by auto
        then have "(c # cs) ! (q - i) = cs ! (q - (i + 1))" by simp
        with True show ?thesis unfolding unf IH by auto
      next
        case False
        with \<open>q \<noteq> i\<close> show ?thesis unfolding unf IH by auto
      qed
    qed
  qed
qed

lemma finditer_gaps:
  "sorted_wrt (\<lambda>a b. snd a < fst b) (finditer_Nplus i cs)"
proof (induction i cs rule: finditer_Nplus.induct)
  case (1 i)
  show ?case by simp
next
  case (2 i c cs)
  show ?case
  proof (cases "c = CHR ''N''")
    case True
    define k where "k = length (takeWhile (\<lambda>x. x = CHR ''N'') cs)"
    have unf: "finditer_Nplus i (c # cs) = (i, i + 1 + k) # finditer_Nplus (i + 1 + k) (drop k cs)"
      using True by (simp add: k_def Let_def)
    have nn: "drop k cs = [] \<or> hd (drop k cs) \<noteq> CHR ''N''"
      unfolding k_def by (rule drop_takeWhile_not_N)
    have "\<forall>b \<in> set (finditer_Nplus (i + 1 + k) (drop k cs)). i + 1 + k < fst b"
    proof
      fix b assume "b \<in> set (finditer_Nplus (i + 1 + k) (drop k cs))"
      then have "(fst b, snd b) \<in> set (finditer_Nplus (i + 1 + k) (drop k cs))" by simp
      from finditer_start_gt[OF nn this] show "i + 1 + k < fst b" .
    qed
    with 2(1)[OF True k_def] show ?thesis unfolding unf by simp
  next
    case False
    with 2(2)[OF False] show ?thesis by simp
  qed
qed

subsection \<open>Rounding errors\<close>

lemma round_half_even_error: "\<bar>of_int (round_half_even x) - x\<bar> \<le> 1 / 2"
proof -
  define d where "d = x - of_int \<lfloor>x\<rfloor>"
  have d: "0 \<le> d" "d < 1" unfolding d_def by linarith+
  have x: "x = of_int \<lfloor>x\<rfloor> + d" unfolding d_def by simp
  have "round_half_even x = \<lfloor>x\<rfloor> \<and> d \<le> 1 / 2 \<or> round_half_even x = \<lfloor>x\<rfloor> + 1 \<and> 1 / 2 \<le> d"
    unfolding round_half_even_def Let_def d_def[symmetric] by auto
  then show ?thesis
  proof
    assume a: "round_half_even x = \<lfloor>x\<rfloor> \<and> d \<le> 1 / 2"
    then have "of_int (round_half_even x) - x = - d" using x by simp
    with a d show ?thesis by simp
  next
    assume a: "round_half_even x = \<lfloor>x\<rfloor> + 1 \<and> 1 / 2 \<le> d"
    then have "of_int (round_half_even x) - x = 1 - d" using x by simp
    with a d show ?thesis by simp
  qed
qed

lemma binade_le:
  assumes "0 < x"
  shows "2 powi (binade x) \<le> x"
proof -
  obtain n d where q: "quotient_of x = (n, d)" by (cases "quotient_of x")
  then have d: "0 < d" and x: "x = of_int n / of_int d"
    by (simp_all add: quotient_of_denom_pos quotient_of_div)
  with assms have n: "0 < n"
    by (simp add: zero_less_divide_iff)
  let ?e0 = "bitlen n - bitlen d"
  show ?thesis
  proof (cases "(2::rat) powi ?e0 \<le> x")
    case True
    then show ?thesis by (simp add: binade_def q)
  next
    case False
    then have b: "binade x = ?e0 - 1" by (simp add: binade_def q)
    have ln: "0 < bitlen n"
    proof (rule ccontr)
      assume "\<not> 0 < bitlen n"
      then have "nat (bitlen n) = 0" by simp
      with bitlen_bounds[OF n] n show False by simp
    qed
    have ld: "0 \<le> bitlen d" by (rule bitlen_nonneg)
    have n1: "(2::int) ^ nat (bitlen n - 1) \<le> n" using bitlen_bounds[OF n] by simp
    have d1: "d < 2 ^ nat (bitlen d)" using bitlen_bounds[OF d] by simp
    have n2: "(2::rat) ^ nat (bitlen n - 1) \<le> of_int n"
      using n1 by (metis of_int_le_iff of_int_numeral of_int_power)
    have d2: "(of_int d :: rat) \<le> 2 ^ nat (bitlen d)"
      using d1 by (metis less_imp_le of_int_le_iff of_int_numeral of_int_power)
    have "(2::rat) powi (?e0 - 1) = 2 powi ((bitlen n - 1) - bitlen d)" by (simp add: algebra_simps)
    also have "(2::rat) powi (bitlen n - 1 - bitlen d) = 2 powi (bitlen n - 1) / 2 powi (bitlen d)"
      by (rule power_int_diff) simp
    finally have "(2::rat) powi (?e0 - 1) = 2 powi (bitlen n - 1) / 2 powi (bitlen d)" .
    also have "\<dots> = 2 ^ nat (bitlen n - 1) / 2 ^ nat (bitlen d)"
      using ln ld by (simp add: power_int_def)
    also have "\<dots> \<le> of_int n / of_int d"
      using n2 d2 d n by (intro frac_le) auto
    finally show ?thesis using b x by simp
  qed
qed

lemma to_binary64_error:
  assumes "0 < x"
  shows "\<bar>to_binary64 x - x\<bar> \<le> x / 2 ^ 53"
proof -
  define u :: rat where "u = 2 powi (binade x - 52)"
  have u0: "0 < u" by (simp add: u_def)
  have "u = 2 powi (binade x) / 2 ^ 52"
    by (simp add: u_def power_int_diff)
  with binade_le[OF assms] have ux: "u \<le> x / 2 ^ 52"
    by (simp add: divide_right_mono)
  have "to_binary64 x = of_int (round_half_even (x / u)) * u"
    using assms by (simp add: to_binary64_def u_def Let_def)
  moreover have "x = x / u * u" using u0 by simp
  ultimately have "to_binary64 x - x = (of_int (round_half_even (x / u)) - x / u) * u"
    by (simp add: left_diff_distrib)
  then have "\<bar>to_binary64 x - x\<bar> = \<bar>of_int (round_half_even (x / u)) - x / u\<bar> * u"
    using u0 by (simp add: abs_mult)
  also have "\<dots> \<le> 1 / 2 * u"
    using round_half_even_error[of "x / u"] u0 by (intro mult_right_mono) auto
  also have "\<dots> \<le> 1 / 2 * (x / 2 ^ 52)"
    using ux by simp
  finally show ?thesis by simp
qed

lemma frac_error:
  assumes "0 < a" "a \<le> b"
  shows "\<bar>of_int (format_6f (to_binary64 (of_nat a / of_nat b))) / 1000000 - of_nat a / of_nat b\<bar>
           \<le> (1 / 2000000 + 1 / 2 ^ 53 :: rat)"
proof -
  define x :: rat where "x = of_nat a / of_nat b"
  define y where "y = to_binary64 x"
  have x0: "0 < x" using assms by (simp add: x_def)
  have x1: "x \<le> 1" using assms by (simp add: x_def)
  have "\<bar>y - x\<bar> \<le> x / 2 ^ 53" unfolding y_def by (rule to_binary64_error[OF x0])
  also have "\<dots> \<le> 1 / 2 ^ 53" using x1 by (simp add: divide_right_mono)
  finally have e1: "\<bar>y - x\<bar> \<le> 1 / 2 ^ 53" .
  have "\<bar>of_int (format_6f y) - y * 1000000\<bar> \<le> 1 / 2"
    unfolding format_6f_def by (rule round_half_even_error)
  then have e2: "\<bar>of_int (format_6f y) / 1000000 - y\<bar> \<le> 1 / 2000000"
    by (simp add: abs_if field_simps split: if_splits)
  have "\<bar>of_int (format_6f y) / 1000000 - x\<bar> \<le> \<bar>of_int (format_6f y) / 1000000 - y\<bar> + \<bar>y - x\<bar>"
    by simp
  with e1 e2 show ?thesis unfolding x_def[symmetric] y_def[symmetric] by linarith
qed

subsection \<open>Properties of the scan loop\<close>

lemma count_takeWhile_N:
  "count_list cs (CHR ''N'') =
     length (takeWhile (\<lambda>x. x = CHR ''N'') cs) +
     count_list (drop (length (takeWhile (\<lambda>x. x = CHR ''N'') cs)) cs) (CHR ''N'')"
  by (induction cs) auto

lemma sum_run_lengths:
  "(\<Sum>(s, e) \<leftarrow> finditer_Nplus i cs. e - s) = count_list cs (CHR ''N'')"
proof (induction i cs rule: finditer_Nplus.induct)
  case (1 i)
  show ?case by simp
next
  case (2 i c cs)
  show ?case
  proof (cases "c = CHR ''N''")
    case True
    define k where "k = length (takeWhile (\<lambda>x. x = CHR ''N'') cs)"
    have "(\<Sum>(s, e) \<leftarrow> finditer_Nplus (i + 1 + k) (drop k cs). e - s) = count_list (drop k cs) (CHR ''N'')"
      by (rule 2(1)[OF True k_def])
    moreover have "count_list cs (CHR ''N'') = k + count_list (drop k cs) (CHR ''N'')"
      unfolding k_def by (rule count_takeWhile_N)
    ultimately show ?thesis using True by (simp add: Let_def k_def)
  next
    case False
    with 2(2)[OF False] show ?thesis by simp
  qed
qed

lemma count_le_length: "count_list xs x \<le> length xs"
  by (induction xs) auto

lemma scan_record_total:
  "\<exists>out. scan_record r = Inr out"
proof (cases r)
  case (Pair nm seq)
  show ?thesis
  proof (cases "count_list seq (CHR ''N'') = 0")
    case True
    with Pair show ?thesis by (simp add: scan_record_def)
  next
    case False
    with count_le_length[of seq "CHR ''N''"] have "length seq \<noteq> 0" by auto
    with False Pair show ?thesis by (simp add: scan_record_def true_div_def Let_def)
  qed
qed

lemma scan_record_row:
  assumes "count_list seq (CHR ''N'') \<noteq> 0"
  shows "scan_record (nm, seq) =
    Inr ([\<lparr>contig = nm, contig_len = length seq, total_Ns = count_list seq (CHR ''N''),
           frac_N = format_6f (to_binary64 (of_nat (count_list seq (CHR ''N'')) / of_nat (length seq))),
           n_N_runs = length (finditer_Nplus 0 seq),
           n_run_positions = map (\<lambda>(s, e). (s + 1, e)) (finditer_Nplus 0 seq)\<rparr>],
         map (bed_line nm) (finditer_Nplus 0 seq))"
proof -
  from assms count_le_length[of seq "CHR ''N''"] have "length seq \<noteq> 0" by auto
  with assms show ?thesis by (simp add: scan_record_def true_div_def Let_def)
qed

lemma scan_loop_total: "snd (scan_loop out rs) = None"
proof (induction rs arbitrary: out)
  case Nil
  show ?case by simp
next
  case (Cons r rs)
  obtain rows beds where "scan_record r = Inr (rows, beds)"
    using scan_record_total[of r] by auto
  with Cons show ?case by simp
qed

lemma scan_loop_append:
  "snd (scan_loop out rs1) = None \<Longrightarrow> scan_loop out (rs1 @ rs2) = scan_loop (fst (scan_loop out rs1)) rs2"
proof (induction rs1 arbitrary: out)
  case Nil
  show ?case by simp
next
  case (Cons r rs)
  obtain rows beds where r: "scan_record r = Inr (rows, beds)"
    using scan_record_total[of r] by auto
  with Cons show ?case by simp
qed

lemma not_space_marker: "\<not> is_space (CHR ''>'')"
  by (simp add: is_space_def)

lemma rstrip_marker_only:
  assumes "\<forall>c \<in> set ws. is_space c"
  shows "rstrip (CHR ''>'' # ws) = [CHR ''>'']"
proof -
  have "dropWhile is_space (rev ws @ [CHR ''>'']) = dropWhile is_space [CHR ''>'']"
    using assms by (intro dropWhile_append2) simp
  then show ?thesis by (simp add: rstrip_def not_space_marker)
qed

lemma first_token_empty: "first_token [] = Inl IndexError"
  by (simp add: first_token_def split_def)

lemma first_token_Inl: "first_token s = Inl err \<Longrightarrow> err = IndexError"
  by (auto simp: first_token_def split: list.splits)

lemma parse_loop_nameless_marker:
  assumes "\<forall>c \<in> set ws. is_space c"
  shows "parse_loop nm sl ((CHR ''>'' # ws) # post) = (yield_rec nm sl, Some IndexError)"
  using rstrip_marker_only[OF assms] by (simp add: startswith_def first_token_empty)

lemma parse_loop_error_at_marker:
  assumes "\<forall>c \<in> set ws. is_space c"
  shows "snd (parse_loop nm sl (pre @ (CHR ''>'' # ws) # post)) = Some IndexError"
proof (induction pre arbitrary: nm sl)
  case Nil
  show ?case by (simp only: append_Nil parse_loop_nameless_marker[OF assms] snd_conv)
next
  case (Cons l pre)
  have IH: "b = Some IndexError"
    if "parse_loop nm' sl' (pre @ (CHR ''>'' # ws) # post) = (a, b)" for nm' sl' a b
    using Cons[of nm' sl'] that by simp
  show ?case
    by (auto simp: Let_def Cons first_token_Inl split: sum.splits prod.splits dest: IH)
qed

lemma parse_loop_error_kind:
  "snd (parse_loop nm sl ls) = None \<or> snd (parse_loop nm sl ls) = Some IndexError"
proof (induction ls arbitrary: nm sl)
  case Nil
  show ?case by simp
next
  case (Cons l ls)
  have IH: "b = None \<or> b = Some IndexError"
    if "parse_loop nm' sl' ls = (a, b)" for nm' sl' a b
    using Cons[of nm' sl'] that by simp
  show ?case
    by (auto simp: Let_def Cons first_token_Inl split: sum.splits prod.splits dest: IH)
qed

lemma parse_loop_records_before_marker:
  assumes "\<forall>c \<in> set ws. is_space c"
  shows "snd (parse_loop nm sl pre) = None \<Longrightarrow>
     fst (parse_loop nm sl (pre @ (CHR ''>'' # ws) # post)) = fst (parse_loop nm sl pre)"
proof (induction pre arbitrary: nm sl)
  case Nil
  show ?case by (simp add: parse_loop_nameless_marker[OF assms] del: parse_loop.simps(2))
next
  case (Cons l pre)
  have IH: "a' = a"
    if "parse_loop nm' sl' (pre @ (CHR ''>'' # ws) # post) = (a', b')"
       "parse_loop nm' sl' pre = (a, None)" for nm' sl' a a' b'
    using Cons(1)[of nm' sl'] that by simp
  from Cons(2) show ?case
    by (auto simp: Let_def Cons(1) split: sum.splits prod.splits if_splits dest: IH)
qed

lemma sum_bed_lengths:
  "sum_list (map N_len (map (bed_line nm) ms)) = (\<Sum>(s, e) \<leftarrow> ms. e - s)"
  by (induction ms) (auto simp: bed_line_def)

lemma sum_reported_lengths:
  fixes ms :: "(nat \<times> nat) list"
  shows "(\<Sum>(s, e) \<leftarrow> map (\<lambda>(s, e). (s + 1, e)) ms. e + 1 - s) = (\<Sum>(s, e) \<leftarrow> ms. e - s)"
  by (induction ms) auto

subsection \<open>Claims about the scan loop\<close>

lemma scan_record_spans:
  assumes "scan_record (nm, seq) = Inr (rows, beds)" and "row \<in> set rows"
  shows "map (\<lambda>b. (chrom_start b, chrom_end b)) beds = finditer_Nplus 0 seq"
    and "n_run_positions row = map (\<lambda>(s, e). (s + 1, e)) (finditer_Nplus 0 seq)"
proof -
  have t: "count_list seq (CHR ''N'') \<noteq> 0"
  proof
    assume "count_list seq (CHR ''N'') = 0"
    with assms show False by (simp add: scan_record_def)
  qed
  from assms scan_record_row[OF t, of nm]
  have beds: "beds = map (bed_line nm) (finditer_Nplus 0 seq)"
    and row: "n_run_positions row = map (\<lambda>(s, e). (s + 1, e)) (finditer_Nplus 0 seq)"
    by auto
  show "n_run_positions row = map (\<lambda>(s, e). (s + 1, e)) (finditer_Nplus 0 seq)" by (rule row)
  have "map (\<lambda>b. (chrom_start b, chrom_end b)) (map (bed_line nm) ms) = ms" for ms
    by (induction ms) (auto simp: bed_line_def)
  then show "map (\<lambda>b. (chrom_start b, chrom_end b)) beds = finditer_Nplus 0 seq"
    by (simp only: beds)
qed

lemma finditer_cover:
  "covered (finditer_Nplus 0 S) = N_positions S \<and>
   (\<forall>p \<in> N_positions S. \<exists>!j. j < length (finditer_Nplus 0 S) \<and>
        fst (finditer_Nplus 0 S ! j) \<le> p \<and> p < snd (finditer_Nplus 0 S ! j)) \<and>
   (\<forall>r \<in> set (finditer_Nplus 0 S). fst r < snd r \<and> snd r \<le> length S) \<and>
   sorted_wrt (\<lambda>a b. snd a < fst b) (finditer_Nplus 0 S) \<and>
   sorted_wrt (<) (map fst (finditer_Nplus 0 S))"
proof -
  let ?ms = "finditer_Nplus 0 S"
  have cov: "covered ?ms = N_positions S"
    by (auto simp: mem_covered_finditer N_positions_def)
  have bnd: "\<forall>r \<in> set ?ms. fst r < snd r \<and> snd r \<le> length S"
  proof
    fix r assume "r \<in> set ?ms"
    then have "(fst r, snd r) \<in> set ?ms" by simp
    from finditer_bounds[OF this] show "fst r < snd r \<and> snd r \<le> length S" by simp
  qed
  have gaps: "sorted_wrt (\<lambda>a b. snd a < fst b) ?ms" by (rule finditer_gaps)
  have gap_nth: "snd (?ms ! j) < fst (?ms ! j')" if "j < j'" "j' < length ?ms" for j j'
    using gaps that by (simp add: sorted_wrt_iff_nth_less)
  have asc: "sorted_wrt (<) (map fst ?ms)"
    unfolding sorted_wrt_map
  proof (rule sorted_wrt_mono_rel[OF _ gaps])
    fix a b assume "a \<in> set ?ms" "b \<in> set ?ms" "snd a < fst b"
    with bnd show "fst a < fst b" by fastforce
  qed
  have one: "\<exists>!j. j < length ?ms \<and> fst (?ms ! j) \<le> p \<and> p < snd (?ms ! j)"
    if "p \<in> N_positions S" for p
  proof -
    from that cov have "p \<in> covered ?ms" by simp
    then obtain s e where "(s, e) \<in> set ?ms" "s \<le> p" "p < e"
      by (auto simp: covered_def)
    then obtain j where j: "j < length ?ms" "?ms ! j = (s, e)"
      by (auto simp: in_set_conv_nth)
    show ?thesis
    proof (rule ex1I[of _ j])
      show "j < length ?ms \<and> fst (?ms ! j) \<le> p \<and> p < snd (?ms ! j)"
        using j \<open>s \<le> p\<close> \<open>p < e\<close> by simp
    next
      fix j' assume a: "j' < length ?ms \<and> fst (?ms ! j') \<le> p \<and> p < snd (?ms ! j')"
      show "j' = j"
      proof (rule ccontr)
        assume "j' \<noteq> j"
        then consider "j < j'" | "j' < j" by linarith
        then show False
        proof cases
          case 1
          from gap_nth[OF 1] a j \<open>p < e\<close> show False by simp
        next
          case 2
          from gap_nth[OF 2 j(1)] a j \<open>s \<le> p\<close> show False by simp
        qed
      qed
    qed
  qed
  from cov one bnd gaps asc show ?thesis by blast
qed

lemma finditer_no_N: "count_list cs (CHR ''N'') = 0 \<Longrightarrow> finditer_Nplus i cs = []"
  by (induction cs arbitrary: i) (auto split: if_splits)

lemma N_positions_empty_iff: "N_positions S = {} \<longleftrightarrow> count_list S (CHR ''N'') = 0"
  by (auto simp: N_positions_def count_list_0_iff in_set_conv_nth)

lemma reported_beds: "snd (reported (nm, S)) = map (bed_line nm) (finditer_Nplus 0 S)"
proof (cases "count_list S (CHR ''N'') = 0")
  case True
  then show ?thesis by (simp add: reported_def scan_record_def finditer_no_N)
next
  case False
  from scan_record_row[OF False, of nm] show ?thesis by (simp add: reported_def)
qed

lemma reported_rows:
  "fst (reported (nm, S)) =
     (if N_positions S = {} then []
      else [\<lparr>contig = nm, contig_len = length S, total_Ns = count_list S (CHR ''N''),
             frac_N = format_6f (to_binary64 (of_nat (count_list S (CHR ''N'')) / of_nat (length S))),
             n_N_runs = length (finditer_Nplus 0 S),
             n_run_positions = map (\<lambda>(s, e). (s + 1, e)) (finditer_Nplus 0 S)\<rparr>])"
proof (cases "count_list S (CHR ''N'') = 0")
  case True
  then show ?thesis by (simp add: reported_def scan_record_def N_positions_empty_iff)
next
  case False
  from scan_record_row[OF False, of nm] False show ?thesis
    by (simp add: reported_def N_positions_empty_iff)
qed

lemma scan_record_reported: "scan_record r = Inr (reported r)"
  using scan_record_total[of r] by (auto simp: reported_def)

lemma bed_spans_lines: "bed_spans (map (bed_line nm) ms) = ms"
  by (induction ms) (auto simp: bed_spans_def bed_line_def)

lemma bed_line_fields:
  "chrom (bed_line nm m) = nm" "chrom_start (bed_line nm m) = fst m"
  "chrom_end (bed_line nm m) = snd m" "N_len (bed_line nm m) = snd m - fst m"
  by (cases m; simp add: bed_line_def)+

lemma scan_loop_reported:
  "scan_loop out rs =
     (\<lparr>tsv = tsv out @ concat (map (fst \<circ> reported) rs),
       bed = bed out @ concat (map (snd \<circ> reported) rs)\<rparr>, None)"
proof (induction rs arbitrary: out)
  case Nil
  show ?case by simp
next
  case (Cons r rs)
  obtain rows beds where rb: "reported r = (rows, beds)" by (cases "reported r")
  with scan_record_reported[of r] have "scan_record r = Inr (rows, beds)" by simp
  with Cons[of "out\<lparr>tsv := tsv out @ rows, bed := bed out @ beds\<rparr>"] rb show ?case by simp
qed


text \<open>
  C1. For every record with name \<open>nm\<close> and sequence \<open>S\<close>, the pass of the loop body ends
  without an exception, and the runs it reports (the BED rows of the record, which hold
  each run 0-based and half open) cover exactly the positions of \<open>S\<close> that hold N: the union
  of the reported spans is the set of those positions, so every position in a run holds N;
  every position holding N lies in exactly one reported run; every run is non-empty, lies
  within the sequence and carries the name of the record; each run ends strictly before the
  next one starts, so no two runs overlap or touch; and the runs are listed by ascending
  start. A TSV row is written exactly when the sequence holds an N, and it lists the same
  runs in the same order, with the start 1-based. The scan loop appends the reports of the
  records one after the other, and the reports of a whole run are those of the records
  that the parser yields, in file order.
\<close>

theorem C1_runs_cover_N_positions:
  "scan_record (nm, S) = Inr (reported (nm, S)) \<and>
   covered (bed_spans (snd (reported (nm, S)))) = N_positions S \<and>
   (\<forall>p \<in> N_positions S. \<exists>!j. j < length (snd (reported (nm, S))) \<and>
        chrom_start (snd (reported (nm, S)) ! j) \<le> p \<and> p < chrom_end (snd (reported (nm, S)) ! j)) \<and>
   (\<forall>b \<in> set (snd (reported (nm, S))).
        chrom b = nm \<and> chrom_start b < chrom_end b \<and> chrom_end b \<le> length S \<and>
        N_len b = chrom_end b - chrom_start b) \<and>
   sorted_wrt (\<lambda>a b. chrom_end a < chrom_start b) (snd (reported (nm, S))) \<and>
   sorted_wrt (<) (map chrom_start (snd (reported (nm, S)))) \<and>
   length (fst (reported (nm, S))) = (if N_positions S = {} then 0 else 1) \<and>
   (\<forall>row \<in> set (fst (reported (nm, S))).
        contig row = nm \<and> n_N_runs row = length (snd (reported (nm, S))) \<and>
        n_run_positions row =
          map (\<lambda>b. (chrom_start b + 1, chrom_end b)) (snd (reported (nm, S)))) \<and>
   scan_loop out rs =
     (\<lparr>tsv = tsv out @ concat (map (fst \<circ> reported) rs),
       bed = bed out @ concat (map (snd \<circ> reported) rs)\<rparr>, None) \<and>
   fst (scanner fh) =
     \<lparr>tsv = concat (map (fst \<circ> reported) (fst (scan_parse_fasta fh))),
      bed = concat (map (snd \<circ> reported) (fst (scan_parse_fasta fh)))\<rparr>"
proof -
  let ?ms = "finditer_Nplus 0 S"
  let ?beds = "snd (reported (nm, S))"
  have beds: "?beds = map (bed_line nm) ?ms" by (rule reported_beds)
  have len: "length ?beds = length ?ms" by (simp add: beds)
  have nth: "chrom_start (?beds ! j) = fst (?ms ! j)" "chrom_end (?beds ! j) = snd (?ms ! j)"
    if "j < length ?ms" for j
    using that by (simp_all add: beds bed_line_fields)
  note fc = finditer_cover[of S]
  have a: "scan_record (nm, S) = Inr (reported (nm, S))" by (rule scan_record_reported)
  have b: "covered (bed_spans ?beds) = N_positions S"
    using fc by (simp add: beds bed_spans_lines)
  have c: "\<exists>!j. j < length ?beds \<and> chrom_start (?beds ! j) \<le> p \<and> p < chrom_end (?beds ! j)"
    if "p \<in> N_positions S" for p
  proof -
    from fc that have "\<exists>!j. j < length ?ms \<and> fst (?ms ! j) \<le> p \<and> p < snd (?ms ! j)" by blast
    moreover have "(j < length ?beds \<and> chrom_start (?beds ! j) \<le> p \<and> p < chrom_end (?beds ! j)) =
        (j < length ?ms \<and> fst (?ms ! j) \<le> p \<and> p < snd (?ms ! j))" for j
      using nth[of j] len by auto
    ultimately show ?thesis by simp
  qed
  have d: "chrom b = nm \<and> chrom_start b < chrom_end b \<and> chrom_end b \<le> length S \<and>
        N_len b = chrom_end b - chrom_start b" if "b \<in> set ?beds" for b
  proof -
    from that obtain m where m: "m \<in> set ?ms" "b = bed_line nm m" by (auto simp: beds)
    with fc have "fst m < snd m \<and> snd m \<le> length S" by blast
    with m show ?thesis by (simp add: bed_line_fields)
  qed
  have e: "sorted_wrt (\<lambda>a b. chrom_end a < chrom_start b) ?beds"
    using fc by (simp add: beds sorted_wrt_map bed_line_fields)
  have f: "sorted_wrt (<) (map chrom_start ?beds)"
    using fc by (simp add: beds sorted_wrt_map bed_line_fields)
  have g: "length (fst (reported (nm, S))) = (if N_positions S = {} then 0 else 1)"
    by (simp add: reported_rows)
  have pos: "map (\<lambda>b. (chrom_start b + 1, chrom_end b)) (map (bed_line nm) ms) =
      map (\<lambda>(s, e). (s + 1, e)) ms" for ms
    by (induction ms) (auto simp: bed_line_def)
  have h: "contig row = nm \<and> n_N_runs row = length ?beds \<and>
        n_run_positions row = map (\<lambda>b. (chrom_start b + 1, chrom_end b)) ?beds"
    if "row \<in> set (fst (reported (nm, S)))" for row
    using that by (auto simp: reported_rows beds pos bed_line_fields split: if_splits)
  have i: "scan_loop out rs =
     (\<lparr>tsv = tsv out @ concat (map (fst \<circ> reported) rs),
       bed = bed out @ concat (map (snd \<circ> reported) rs)\<rparr>, None)"
    by (rule scan_loop_reported)
  have j: "fst (scanner fh) =
     \<lparr>tsv = concat (map (fst \<circ> reported) (fst (scan_parse_fasta fh))),
      bed = concat (map (snd \<circ> reported) (fst (scan_parse_fasta fh)))\<rparr>"
    by (cases "scan_parse_fasta fh") (simp add: scanner_def scan_loop_reported)
  from a b c d e f g h i j show ?thesis by blast
qed

theorem C1_runs_cover_N_positions_witness:
  "5 \<in> N_positions ''ACGTNNNAC'' \<and>
   reported (''c1'', ''ACGTNNNAC'') =
     ([\<lparr>contig = ''c1'', contig_len = 9, total_Ns = 3, frac_N = 333333, n_N_runs = 1,
        n_run_positions = [(5, 7)]\<rparr>],
      [\<lparr>chrom = ''c1'', chrom_start = 4, chrom_end = 7, run_name = (''c1'', 5, 7), N_len = 3\<rparr>]) \<and>
   covered (bed_spans (snd (reported (''c1'', ''ACGTNNNAC'')))) = N_positions ''ACGTNNNAC'' \<and>
   (\<exists>!j. j < length (snd (reported (''c1'', ''ACGTNNNAC''))) \<and>
        chrom_start (snd (reported (''c1'', ''ACGTNNNAC'')) ! j) \<le> 5 \<and>
        5 < chrom_end (snd (reported (''c1'', ''ACGTNNNAC'')) ! j)) \<and>
   fst (scanner [''>c1\<newline>'', ''acgtnnnac\<newline>'', ''>c2\<newline>'', ''ACGT\<newline>'']) =
     \<lparr>tsv = [\<lparr>contig = ''c1'', contig_len = 9, total_Ns = 3, frac_N = 333333, n_N_runs = 1,
              n_run_positions = [(5, 7)]\<rparr>],
      bed = [\<lparr>chrom = ''c1'', chrom_start = 4, chrom_end = 7, run_name = (''c1'', 5, 7),
              N_len = 3\<rparr>]\<rparr>"
proof -
  have m: "(5::nat) \<in> N_positions ''ACGTNNNAC''"
    by (simp add: N_positions_def)
  have r: "reported (''c1'', ''ACGTNNNAC'') =
     ([\<lparr>contig = ''c1'', contig_len = 9, total_Ns = 3, frac_N = 333333, n_N_runs = 1,
        n_run_positions = [(5, 7)]\<rparr>],
      [\<lparr>chrom = ''c1'', chrom_start = 4, chrom_end = 7, run_name = (''c1'', 5, 7), N_len = 3\<rparr>])"
    by code_simp
  have r2: "reported (''c2'', ''ACGT'') = ([], [])"
    by code_simp
  have p: "scan_parse_fasta [''>c1\<newline>'', ''acgtnnnac\<newline>'', ''>c2\<newline>'', ''ACGT\<newline>''] =
      ([(''c1'', ''ACGTNNNAC''), (''c2'', ''ACGT'')], None)"
    by code_simp
  note t = C1_runs_cover_N_positions[of "''c1''" "''ACGTNNNAC''" _ _
    "[''>c1\<newline>'', ''acgtnnnac\<newline>'', ''>c2\<newline>'', ''ACGT\<newline>'']"]
  from t have c: "covered (bed_spans (snd (reported (''c1'', ''ACGTNNNAC'')))) = N_positions ''ACGTNNNAC''"
    by blast
  from t m have u: "\<exists>!j. j < length (snd (reported (''c1'', ''ACGTNNNAC''))) \<and>
        chrom_start (snd (reported (''c1'', ''ACGTNNNAC'')) ! j) \<le> 5 \<and>
        5 < chrom_end (snd (reported (''c1'', ''ACGTNNNAC'')) ! j)"
    by blast
  from t have "fst (scanner [''>c1\<newline>'', ''acgtnnnac\<newline>'', ''>c2\<newline>'', ''ACGT\<newline>'']) =
     \<lparr>tsv = concat (map (fst \<circ> reported) (fst (scan_parse_fasta [''>c1\<newline>'', ''acgtnnnac\<newline>'', ''>c2\<newline>'', ''ACGT\<newline>'']))),
      bed = concat (map (snd \<circ> reported) (fst (scan_parse_fasta [''>c1\<newline>'', ''acgtnnnac\<newline>'', ''>c2\<newline>'', ''ACGT\<newline>''])))\<rparr>"
    by blast
  then have s: "fst (scanner [''>c1\<newline>'', ''acgtnnnac\<newline>'', ''>c2\<newline>'', ''ACGT\<newline>'']) =
     \<lparr>tsv = [\<lparr>contig = ''c1'', contig_len = 9, total_Ns = 3, frac_N = 333333, n_N_runs = 1,
              n_run_positions = [(5, 7)]\<rparr>],
      bed = [\<lparr>chrom = ''c1'', chrom_start = 4, chrom_end = 7, run_name = (''c1'', 5, 7),
              N_len = 3\<rparr>]\<rparr>"
    by (simp only: p fst_conv list.map comp_def r r2 concat.simps append_Nil2 append_Nil snd_conv)
  from m r c u s show ?thesis by (intro conjI)
qed

text \<open>
  C4. For every row that the scanner writes for a record, \<open>total_Ns\<close> is the sum of the
  lengths of the runs it reports, both as the \<open>N_len\<close> column of the record's BED rows and as
  the lengths of the 1-based inclusive positions of the TSV row; \<open>contig_len\<close> is the length
  of the sequence and is positive; and \<open>frac_N\<close> is \<open>total_Ns / contig_len\<close> printed to six
  decimal places: the printed value is the six-place rendering of the binary64 quotient,
  it differs from the exact quotient by at most half a unit of the sixth place plus the
  rounding error \<open>2\<^sup>-\<^sup>5\<^sup>3\<close> of the division, and so by less than one unit of the sixth place.
\<close>

theorem C4_total_and_fraction:
  assumes "scan_record (nm, seq) = Inr (rows, beds)" and "row \<in> set rows"
  shows "total_Ns row = sum_list (map N_len beds) \<and>
         total_Ns row = (\<Sum>(s, e) \<leftarrow> n_run_positions row. e + 1 - s) \<and>
         contig_len row = length seq \<and> 0 < contig_len row \<and>
         frac_N row = format_6f (to_binary64 (of_nat (total_Ns row) / of_nat (contig_len row))) \<and>
         \<bar>of_int (frac_N row) / 1000000 - of_nat (total_Ns row) / of_nat (contig_len row)\<bar>
            \<le> (1 / 2000000 + 1 / 2 ^ 53 :: rat) \<and>
         \<bar>of_int (frac_N row) / 1000000 - of_nat (total_Ns row) / of_nat (contig_len row)\<bar>
            < (1 / 1000000 :: rat)"
proof -
  let ?t = "count_list seq (CHR ''N'')"
  have t: "?t \<noteq> 0"
  proof
    assume "?t = 0"
    with assms show False by (simp add: scan_record_def)
  qed
  have le: "?t \<le> length seq" by (rule count_le_length)
  with t have len: "0 < length seq" by auto
  from assms scan_record_row[OF t, of nm]
  have row: "row = \<lparr>contig = nm, contig_len = length seq, total_Ns = ?t,
           frac_N = format_6f (to_binary64 (of_nat ?t / of_nat (length seq))),
           n_N_runs = length (finditer_Nplus 0 seq),
           n_run_positions = map (\<lambda>(s, e). (s + 1, e)) (finditer_Nplus 0 seq)\<rparr>"
    and beds: "beds = map (bed_line nm) (finditer_Nplus 0 seq)"
    by auto
  have s1: "total_Ns row = sum_list (map N_len beds)"
    unfolding beds sum_bed_lengths by (simp add: row sum_run_lengths)
  have s2: "total_Ns row = (\<Sum>(s, e) \<leftarrow> n_run_positions row. e + 1 - s)"
    using sum_reported_lengths[of "finditer_Nplus 0 seq"] sum_run_lengths[of 0 seq]
    by (simp add: row)
  have e: "\<bar>of_int (frac_N row) / 1000000 - of_nat (total_Ns row) / of_nat (contig_len row)\<bar>
            \<le> (1 / 2000000 + 1 / 2 ^ 53 :: rat)"
    using frac_error[of ?t "length seq"] t le by (simp add: row)
  have "(1 / 2000000 + 1 / 2 ^ 53 :: rat) < 1 / 1000000" by simp
  with e have e': "\<bar>of_int (frac_N row) / 1000000 - of_nat (total_Ns row) / of_nat (contig_len row)\<bar>
            < (1 / 1000000 :: rat)" by linarith
  from s1 s2 e e' len show ?thesis by (simp add: row)
qed

theorem C4_total_and_fraction_witness:
  "scan_record (''c1'', ''ACGTNNNAC'') =
     Inr ([\<lparr>contig = ''c1'', contig_len = 9, total_Ns = 3, frac_N = 333333, n_N_runs = 1,
             n_run_positions = [(5, 7)]\<rparr>],
          [\<lparr>chrom = ''c1'', chrom_start = 4, chrom_end = 7, run_name = (''c1'', 5, 7),
            N_len = 3\<rparr>]) \<and>
   \<bar>of_int 333333 / 1000000 - of_nat 3 / of_nat 9\<bar> < (1 / 1000000 :: rat)"
proof -
  have h: "scan_record (''c1'', ''ACGTNNNAC'') =
     Inr ([\<lparr>contig = ''c1'', contig_len = 9, total_Ns = 3, frac_N = 333333, n_N_runs = 1,
             n_run_positions = [(5, 7)]\<rparr>],
          [\<lparr>chrom = ''c1'', chrom_start = 4, chrom_end = 7, run_name = (''c1'', 5, 7),
            N_len = 3\<rparr>])"
    by code_simp
  from C4_total_and_fraction[OF h, of "\<lparr>contig = ''c1'', contig_len = 9, total_Ns = 3,
       frac_N = 333333, n_N_runs = 1, n_run_positions = [(5, 7)]\<rparr>"] h
  show ?thesis by simp
qed

text \<open>
  C5, as stated, fails. The claim says that for some record the fraction is computed with
  \<open>contig_len = 0\<close>, that is, that the ZeroDivisionError branch of the division is reached.
  A record of length 0 holds no N, so the test \<^verbatim>\<open>if total_Ns == 0: continue\<close> skips it before
  the division: the empty record gives no row and no error, and no record at all makes
  \<open>scan_record\<close> raise ZeroDivisionError.
\<close>

theorem C5_no_division_by_zero_counterexample:
  "scan_record (''c'', []) = Inr ([], []) \<and> \<not> (\<exists>r. scan_record r = Inl ZeroDivisionError)"
proof -
  have "scan_record (''c'', []) = Inr ([], [])" by (simp add: scan_record_def)
  moreover have "\<not> (\<exists>r. scan_record r = Inl ZeroDivisionError)"
    using scan_record_total by (metis sum.distinct(1))
  ultimately show ?thesis by simp
qed

text \<open>
  C5, amended. The scanner has no test of the length, but the zero-N skip stands before
  the division: every pass of the loop body ends without an exception, a whole run never
  ends with ZeroDivisionError, a record of length 0 is skipped, and whenever the fraction is
  computed (the record holds an N) the divisor \<open>contig_len\<close> is positive and the division
  returns a number.
\<close>

theorem C5_fraction_divisor_positive:
  "(\<exists>out. scan_record (nm, seq) = Inr out) \<and>
   snd (scanner fh) \<noteq> Some ZeroDivisionError \<and>
   scan_record (nm, []) = Inr ([], []) \<and>
   (count_list seq (CHR ''N'') \<noteq> 0 \<longrightarrow>
      0 < length seq \<and>
      true_div (count_list seq (CHR ''N'')) (length seq) =
        Inr (to_binary64 (of_nat (count_list seq (CHR ''N'')) / of_nat (length seq))))"
proof -
  have a: "\<exists>out. scan_record (nm, seq) = Inr out" by (rule scan_record_total)
  have b: "snd (scanner fh) \<noteq> Some ZeroDivisionError"
  proof -
    obtain recs perr where p: "scan_parse_fasta fh = (recs, perr)" by (cases "scan_parse_fasta fh")
    obtain out serr where s: "scan_loop \<lparr>tsv = [], bed = []\<rparr> recs = (out, serr)"
      by (cases "scan_loop \<lparr>tsv = [], bed = []\<rparr> recs")
    from scan_loop_total[of "\<lparr>tsv = [], bed = []\<rparr>" recs] s have "serr = None" by simp
    moreover from parse_loop_error_kind[of None "[]" fh] p have "perr = None \<or> perr = Some IndexError"
      by (simp add: scan_parse_fasta_def)
    ultimately show ?thesis using p s by (auto simp: scanner_def)
  qed
  have c: "scan_record (nm, []) = Inr ([], [])" by (simp add: scan_record_def)
  have d: "0 < length seq \<and>
      true_div (count_list seq (CHR ''N'')) (length seq) =
        Inr (to_binary64 (of_nat (count_list seq (CHR ''N'')) / of_nat (length seq)))"
    if "count_list seq (CHR ''N'') \<noteq> 0"
  proof -
    from that count_le_length[of seq "CHR ''N''"] have "0 < length seq" by auto
    then show ?thesis by (simp add: true_div_def)
  qed
  from a b c d show ?thesis by blast
qed

theorem C5_fraction_divisor_positive_witness:
  "count_list ''NNNN'' (CHR ''N'') \<noteq> 0 \<and> 0 < length ''NNNN'' \<and>
   true_div (count_list ''NNNN'' (CHR ''N'')) (length ''NNNN'') = Inr 1"
proof -
  have h: "count_list ''NNNN'' (CHR ''N'') \<noteq> 0" by simp
  have v: "to_binary64 (of_nat (count_list ''NNNN'' (CHR ''N'')) / of_nat (length ''NNNN'')) = 1"
    by code_simp
  from C5_fraction_divisor_positive[of "''c2''" "''NNNN''" "[]"] h v show ?thesis
    by simp
qed

text \<open>
  C6. For every record whose sequence holds no N, the pass of the loop body over it
  appends no row to the TSV report and no row to the BED report; hence, wherever the record
  stands among the parsed records, both reports are what they are without it.
\<close>

theorem C6_zero_N_record_skipped:
  assumes "count_list seq (CHR ''N'') = 0"
  shows "scan_record (nm, seq) = Inr ([], []) \<and>
         scan_loop out (rs1 @ (nm, seq) # rs2) = scan_loop out (rs1 @ rs2)"
proof -
  have r: "scan_record (nm, seq) = Inr ([], [])"
    using assms by (simp add: scan_record_def)
  have n: "snd (scan_loop out rs1) = None" by (rule scan_loop_total)
  obtain o1 where o1: "scan_loop out rs1 = (o1, None)"
    using n by (cases "scan_loop out rs1") simp
  have "scan_loop out (rs1 @ (nm, seq) # rs2) = scan_loop o1 ((nm, seq) # rs2)"
    using scan_loop_append[OF n, of "(nm, seq) # rs2"] o1 by simp
  also have "\<dots> = scan_loop o1 rs2" by (simp add: r)
  also have "\<dots> = scan_loop out (rs1 @ rs2)"
    using scan_loop_append[OF n, of rs2] o1 by simp
  finally show ?thesis using r by simp
qed

theorem C6_zero_N_record_skipped_witness:
  "count_list ''ACGT'' (CHR ''N'') = 0 \<and>
   scan_record (''c3'', ''ACGT'') = Inr ([], []) \<and>
   scan_loop \<lparr>tsv = [], bed = []\<rparr> ([(''c2'', ''NNNN'')] @ (''c3'', ''ACGT'') # []) =
     scan_loop \<lparr>tsv = [], bed = []\<rparr> ([(''c2'', ''NNNN'')] @ [])"
proof -
  have h: "count_list ''ACGT'' (CHR ''N'') = 0" by simp
  from C6_zero_N_record_skipped[OF h, of "''c3''" "\<lparr>tsv = [], bed = []\<rparr>" "[(''c2'', ''NNNN'')]" "[]"] h
  show ?thesis by simp
qed

text \<open>
  C10. The parser of the scanner is not total on marker lines. For every input that holds
  a line made of the marker and whitespace only (or the marker alone), whatever stands
  before and after it, parsing ends with IndexError, and so does the run of the scanner.
  The line is neither skipped nor turned into a record: when the lines before it parse
  without an exception, the records yielded are exactly the records of those lines, and
  nothing after the line is read.
\<close>

theorem C10_nameless_marker_raises:
  assumes "\<forall>c \<in> set ws. is_space c"
  shows "snd (scan_parse_fasta (pre @ (CHR ''>'' # ws) # post)) = Some IndexError \<and>
         snd (scanner (pre @ (CHR ''>'' # ws) # post)) = Some IndexError \<and>
         (snd (scan_parse_fasta pre) = None \<longrightarrow>
            fst (scan_parse_fasta (pre @ (CHR ''>'' # ws) # post)) = fst (scan_parse_fasta pre))"
proof -
  let ?fh = "pre @ (CHR ''>'' # ws) # post"
  have a: "snd (scan_parse_fasta ?fh) = Some IndexError"
    unfolding scan_parse_fasta_def by (rule parse_loop_error_at_marker[OF assms])
  have b: "snd (scanner ?fh) = Some IndexError"
  proof -
    obtain recs where p: "scan_parse_fasta ?fh = (recs, Some IndexError)"
      using a by (cases "scan_parse_fasta ?fh") simp
    obtain out serr where s: "scan_loop \<lparr>tsv = [], bed = []\<rparr> recs = (out, serr)"
      by (cases "scan_loop \<lparr>tsv = [], bed = []\<rparr> recs")
    from scan_loop_total[of "\<lparr>tsv = [], bed = []\<rparr>" recs] s have "serr = None" by simp
    with p s show ?thesis by (simp add: scanner_def)
  qed
  have c: "fst (scan_parse_fasta ?fh) = fst (scan_parse_fasta pre)"
    if "snd (scan_parse_fasta pre) = None"
    using that unfolding scan_parse_fasta_def
    by (rule parse_loop_records_before_marker[OF assms])
  from a b c show ?thesis by blast
qed

theorem C10_nameless_marker_raises_witness:
  "(\<forall>c \<in> set '' \<newline>''. is_space c) = True \<and>
   scan_parse_fasta ([''>c1\<newline>'', ''ACGTN\<newline>''] @ (CHR ''>'' # '' \<newline>'') # [''NNNN\<newline>'']) =
     ([(''c1'', ''ACGTN'')], Some IndexError)"
proof -
  have h: "\<forall>c \<in> set '' \<newline>''. is_space c" by (simp add: is_space_def)
  have p: "scan_parse_fasta [''>c1\<newline>'', ''ACGTN\<newline>''] = ([(''c1'', ''ACGTN'')], None)"
    by code_simp
  from C10_nameless_marker_raises[OF h, of "[''>c1\<newline>'', ''ACGTN\<newline>'']" "[''NNNN\<newline>'']"] h p
  show ?thesis by (cases "scan_parse_fasta ([''>c1\<newline>'', ''ACGTN\<newline>''] @ (CHR ''>'' # '' \<newline>'') # [''NNNN\<newline>''])") simp
qed

section \<open>Properties of the reorder tool\<close>

subsection \<open>The lines of a wrapped sequence\<close>

lemma concat_chunks_take:
  "concat (map (\<lambda>k. take w (drop (k * w) xs)) [0..<m]) = take (m * w) xs"
proof (induction m)
  case 0
  show ?case by simp
next
  case (Suc m)
  have "take (m * w) xs @ take w (drop (m * w) xs) = take (m * w + w) xs"
    by (simp add: take_add)
  with Suc show ?case by (simp add: add.commute)
qed

lemma chunks_eq:
  "chunks seq w = map (\<lambda>k. take w (drop (k * w) seq)) [0..<(length seq + w - 1) div w]"
  by (simp add: chunks_def py_range_def slice_def comp_def)

lemma ceil_div_bounds:
  fixes n w :: nat
  assumes "0 < w"
  shows "n \<le> ((n + w - 1) div w) * w"
    and "0 < n \<Longrightarrow> ((n + w - 1) div w - 1) * w < n"
    and "0 < n \<Longrightarrow> 0 < (n + w - 1) div w"
proof -
  define m where "m = (n + w - 1) div w"
  have d: "n + w - 1 = m * w + (n + w - 1) mod w" unfolding m_def by simp
  have r: "(n + w - 1) mod w < w" using assms by simp
  from d r assms show "n \<le> m * w" by linarith
  show "0 < m" if "0 < n"
  proof (rule ccontr)
    assume "\<not> 0 < m"
    then have "m = 0" by simp
    with d r that show False by simp
  qed
  show "(m - 1) * w < n" if "0 < n"
  proof -
    from \<open>0 < n \<Longrightarrow> 0 < m\<close> that have "0 < m" .
    then have "m * w = (m - 1) * w + w" by (cases m) simp_all
    with d r assms show ?thesis by linarith
  qed
qed

lemma concat_chunks:
  assumes "0 < w"
  shows "concat (chunks seq w) = seq"
  unfolding chunks_eq concat_chunks_take using ceil_div_bounds(1)[OF assms, of "length seq"]
  by simp

lemma length_chunks: "length (chunks seq w) = (length seq + w - 1) div w"
  by (simp add: chunks_eq)

lemma chunk_lengths:
  assumes "0 < w" "i < length (chunks seq w)"
  shows "length (chunks seq w ! i) = (if Suc i < length (chunks seq w) then w else length seq - i * w)"
    and "0 < length (chunks seq w ! i)"
    and "length (chunks seq w ! i) \<le> w"
proof -
  let ?n = "length seq" and ?m = "(length seq + w - 1) div w"
  from assms have im: "i < ?m" by (simp add: length_chunks)
  then have n0: "0 < ?n" using assms(1) by (cases "?n = 0") auto
  have c: "chunks seq w ! i = take w (drop (i * w) seq)"
    using im by (simp add: chunks_eq)
  then have l: "length (chunks seq w ! i) = min w (?n - i * w)" by simp
  have lt: "(?m - 1) * w < ?n" by (rule ceil_div_bounds(2)[OF assms(1) n0])
  have "i \<le> ?m - 1" using im by linarith
  then have "i * w \<le> (?m - 1) * w" by (rule mult_le_mono1)
  then have iw: "i * w < ?n" using lt by (rule le_less_trans)
  show "0 < length (chunks seq w ! i)" using l iw assms(1) by simp
  show "length (chunks seq w ! i) \<le> w" using l by simp
  show "length (chunks seq w ! i) = (if Suc i < length (chunks seq w) then w else ?n - i * w)"
  proof (cases "Suc i < ?m")
    case True
    then have "Suc i \<le> ?m - 1" by linarith
    then have "Suc i * w \<le> (?m - 1) * w" by (rule mult_le_mono1)
    then have "Suc i * w < ?n" using lt by (rule le_less_trans)
    then have "i * w + w < ?n" by (simp add: add.commute)
    with l True show ?thesis by (simp add: length_chunks)
  next
    case False
    with im have "i = ?m - 1" by simp
    with ceil_div_bounds(1)[OF assms(1), of ?n] im have "?n \<le> i * w + w"
      by (cases ?m) simp_all
    with l False show ?thesis by (simp add: length_chunks)
  qed
qed

text \<open>
  C9. For every header, sequence and wrap width \<open>W\<close>, the first string written is the marker,
  the header and a newline. When \<open>W > 0\<close> the strings that follow are the chunks of the
  sequence, each with a newline: the chunks concatenate to the sequence, every chunk but the
  last has exactly \<open>W\<close> characters, and the last has between 1 and \<open>W\<close> (an empty sequence
  gives no chunk). When \<open>W \<le> 0\<close> the whole sequence is written as one line.
\<close>

theorem C9_write_seq_lines:
  "hd (write_seq header seq W) = CHR ''>'' # header @ [CHR 0x0A] \<and>
   (0 < W \<longrightarrow>
      tl (write_seq header seq W) = map (\<lambda>c. c @ [CHR 0x0A]) (chunks seq (nat W)) \<and>
      concat (chunks seq (nat W)) = seq \<and>
      (\<forall>i < length (chunks seq (nat W)).
         length (chunks seq (nat W) ! i) =
           (if Suc i < length (chunks seq (nat W)) then nat W else length seq - i * nat W) \<and>
         0 < length (chunks seq (nat W) ! i) \<and> length (chunks seq (nat W) ! i) \<le> nat W)) \<and>
   (W \<le> 0 \<longrightarrow> write_seq header seq W = [CHR ''>'' # header @ [CHR 0x0A], seq @ [CHR 0x0A]])"
proof -
  have a: "hd (write_seq header seq W) = CHR ''>'' # header @ [CHR 0x0A]"
    by (simp add: write_seq_def)
  have b: "tl (write_seq header seq W) = map (\<lambda>c. c @ [CHR 0x0A]) (chunks seq (nat W))" if "0 < W"
    using that by (simp add: write_seq_def)
  have c: "concat (chunks seq (nat W)) = seq" if "0 < W"
    using that by (intro concat_chunks) simp
  have d: "length (chunks seq (nat W) ! i) =
           (if Suc i < length (chunks seq (nat W)) then nat W else length seq - i * nat W) \<and>
         0 < length (chunks seq (nat W) ! i) \<and> length (chunks seq (nat W) ! i) \<le> nat W"
    if "0 < W" "i < length (chunks seq (nat W))" for i
  proof -
    from that(1) have w: "0 < nat W" by simp
    from chunk_lengths[OF w that(2)] show ?thesis by blast
  qed
  have e: "write_seq header seq W = [CHR ''>'' # header @ [CHR 0x0A], seq @ [CHR 0x0A]]" if "W \<le> 0"
    using that by (simp add: write_seq_def)
  from a b c d e show ?thesis by blast
qed

theorem C9_write_seq_lines_witness:
  "(0::int) < 3 \<and> (0::int) \<le> 0 \<and>
   write_seq ''c1 x'' ''ABCDEFGHIJ'' 3 = [''>c1 x\<newline>'', ''ABC\<newline>'', ''DEF\<newline>'', ''GHI\<newline>'', ''J\<newline>''] \<and>
   chunks ''ABCDEFGHIJ'' (nat 3) = [''ABC'', ''DEF'', ''GHI'', ''J''] \<and>
   write_seq ''c1 x'' ''ABCDEFGHIJ'' 0 = [''>c1 x\<newline>'', ''ABCDEFGHIJ\<newline>'']"
proof -
  have c: "chunks ''ABCDEFGHIJ'' (nat 3) = [''ABC'', ''DEF'', ''GHI'', ''J'']"
    by code_simp
  have h: "hd (write_seq ''c1 x'' ''ABCDEFGHIJ'' 3) # tl (write_seq ''c1 x'' ''ABCDEFGHIJ'' 3) =
      write_seq ''c1 x'' ''ABCDEFGHIJ'' 3"
    by (simp add: write_seq_def)
  from C9_write_seq_lines[of "''c1 x''" "''ABCDEFGHIJ''" 3]
       C9_write_seq_lines[of "''c1 x''" "''ABCDEFGHIJ''" 0] c h
  show ?thesis by simp
qed

subsection \<open>The index and the matching loop\<close>

lemma split_from_empty_iff:
  "split_from cur s = [] \<longleftrightarrow> cur = [] \<and> (\<forall>c \<in> set s. is_space c)"
  by (induction s arbitrary: cur) auto

lemma first_token_Inr_iff: "(\<exists>t. first_token s = Inr t) \<longleftrightarrow> (\<exists>c \<in> set s. \<not> is_space c)"
  using split_from_empty_iff[of "[]" s]
  by (auto simp: first_token_def split_def split: list.splits)

lemma first_token_nonempty: "first_token h = Inr t \<Longrightarrow> h \<noteq> []"
  using first_token_Inr_iff[of h] by auto

lemma build_index_lookup:
  "build_index m hs = Inr n2h \<Longrightarrow>
   n2h t = (if filter (\<lambda>h. first_token h = Inr t) hs = [] then m t
            else Some ((case m t of None \<Rightarrow> [] | Some l \<Rightarrow> l) @ filter (\<lambda>h. first_token h = Inr t) hs))"
proof (induction hs arbitrary: m)
  case Nil
  then show ?case by simp
next
  case (Cons h hs)
  from Cons.prems obtain f where f: "first_token h = Inr f"
    and r: "build_index (m(f \<mapsto> (case m f of None \<Rightarrow> [] | Some l \<Rightarrow> l) @ [h])) hs = Inr n2h"
    by (auto split: sum.splits)
  from Cons.IH[OF r] f show ?case by (auto split: option.splits)
qed

lemma build_index_ok:
  "(\<exists>n2h. build_index m hs = Inr n2h) \<longleftrightarrow> (\<forall>h \<in> set hs. \<exists>t. first_token h = Inr t)"
proof (induction hs arbitrary: m)
  case Nil
  show ?case by simp
next
  case (Cons h hs)
  show ?case
  proof (cases "first_token h")
    case (Inl e)
    then show ?thesis by auto
  next
    case (Inr f)
    then show ?thesis using Cons.IH by simp
  qed
qed

lemma build_index_error: "build_index m hs = Inl err \<Longrightarrow> err = IndexError"
proof (induction hs arbitrary: m)
  case Nil
  then show ?case by simp
next
  case (Cons h hs)
  then show ?case
    by (cases "first_token h") (auto simp: first_token_def split: list.splits)
qed

lemma first_unused_find: "first_unused u chs = find (\<lambda>h. h \<notin> u) chs"
  by (induction chs) auto

lemma find_filter: "find Q (filter P xs) = find (\<lambda>x. P x \<and> Q x) xs"
  by (induction xs) auto

lemma match_entry_spec:
  assumes "dom seqs = set headers" and "build_index Map.empty headers = Inr n2h"
  shows "match_entry seqs n2h st entry = spec_step headers st entry"
proof (cases "entry \<in> set headers \<and> entry \<notin> used st")
  case True
  with assms(1) have "seqs entry \<noteq> None" by auto
  with True show ?thesis by (simp add: match_entry_def spec_step_def resolve_spec_def)
next
  case False
  with assms(1) have ne: "\<not> (seqs entry \<noteq> None \<and> entry \<notin> used st)" by auto
  have me: "match_entry seqs n2h st entry =
      (case n2h entry of
         None \<Rightarrow> miss st entry
       | Some chs \<Rightarrow>
           (case first_unused (used st) chs of
              None \<Rightarrow> miss st entry
            | Some choice \<Rightarrow> if choice \<noteq> [] then take_header st choice else miss st entry))"
    using ne unfolding match_entry_def by (simp only: if_False)
  let ?P = "\<lambda>h. first_token h = Inr entry"
  have look: "n2h entry = (if filter ?P headers = [] then None else Some (filter ?P headers))"
    using build_index_lookup[OF assms(2), of entry] by simp
  have r: "resolve_spec headers (used st) entry = find (\<lambda>h. ?P h \<and> h \<notin> used st) headers"
    using False by (auto simp: resolve_spec_def)
  show ?thesis
  proof (cases "filter ?P headers = []")
    case True
    then have "find (\<lambda>h. ?P h \<and> h \<notin> used st) headers = None"
      by (auto simp: find_None_iff filter_empty_conv)
    with True look r show ?thesis by (simp add: me spec_step_def)
  next
    case nonempty: False
    have fu: "first_unused (used st) (filter ?P headers) = find (\<lambda>h. ?P h \<and> h \<notin> used st) headers"
      by (simp add: first_unused_find find_filter)
    show ?thesis
    proof (cases "find (\<lambda>h. ?P h \<and> h \<notin> used st) headers")
      case None
      with nonempty look r fu show ?thesis by (simp add: me spec_step_def)
    next
      case (Some c)
      then have "first_token c = Inr entry" by (auto simp: find_Some_iff)
      then have "c \<noteq> []" by (rule first_token_nonempty)
      with Some nonempty look r fu show ?thesis by (simp add: me spec_step_def)
    qed
  qed
qed

lemma rparse_headers:
  "fst (rparse_loop hs seqs cur parts ls) = hs @ map header_of (filter is_marker ls)"
proof (induction ls arbitrary: hs seqs cur parts)
  case Nil
  show ?case by simp
next
  case (Cons l ls)
  show ?case
    by (cases "rstrip_nl l = []")
       (auto simp: Let_def Cons is_marker_def header_of_def startswith_def)
qed

lemma rparse_dom:
  "dom seqs \<union> set_option cur = set hs \<Longrightarrow>
   dom (snd (rparse_loop hs seqs cur parts ls)) = set (fst (rparse_loop hs seqs cur parts ls))"
proof (induction ls arbitrary: hs seqs cur parts)
  case Nil
  then show ?case by (cases cur) auto
next
  case (Cons l ls)
  let ?s' = "case cur of None \<Rightarrow> seqs | Some h \<Rightarrow> seqs(h \<mapsto> concat parts)"
  have d: "dom ?s' \<union> set_option (Some h') = set (hs @ [h'])" for h'
    using Cons.prems by (cases cur) auto
  show ?case
    using Cons.IH[OF Cons.prems] Cons.IH[OF d]
    by (simp add: Let_def)
qed

lemma parse_dom:
  "reorder_parse_fasta fh = (headers, seqs) \<Longrightarrow> dom seqs = set headers"
  using rparse_dom[of Map.empty None "[]" "[]" fh] by (simp add: reorder_parse_fasta_def)

lemma parse_headers:
  "fst (reorder_parse_fasta fh) = map header_of (filter is_marker fh)"
  by (simp add: reorder_parse_fasta_def rparse_headers)

lemma resolve_spec_Some:
  "resolve_spec headers u entry = Some h \<Longrightarrow> h \<in> set headers \<and> h \<notin> u"
  by (auto simp: resolve_spec_def find_Some_iff split: if_splits)

lemma spec_step_inv:
  assumes "match_inv headers st"
  shows "match_inv headers (spec_step headers st entry)"
proof (cases "resolve_spec headers (used st) entry")
  case None
  with assms show ?thesis by (simp add: spec_step_def miss_def match_inv_def)
next
  case (Some h)
  from resolve_spec_Some[OF Some] assms Some show ?thesis
    by (auto simp: spec_step_def take_header_def match_inv_def)
qed

lemma spec_loop_inv:
  "match_inv headers st \<Longrightarrow> match_inv headers (foldl (spec_step headers) st es)"
  by (induction es arbitrary: st) (auto intro: spec_step_inv)

lemma match_loop_spec:
  assumes "dom seqs = set headers" and "build_index Map.empty headers = Inr n2h"
  shows "foldl (match_entry seqs n2h) st es = foldl (spec_step headers) st es"
  by (induction es arbitrary: st) (simp_all add: match_entry_spec[OF assms])

lemma init_inv: "match_inv headers \<lparr>ordered_headers = [], used = {}, not_found = []\<rparr>"
  by (simp add: match_inv_def)

lemma lookup_all_ok:
  "set hs \<subseteq> dom seqs \<Longrightarrow> lookup_all seqs hs = Inr (map (\<lambda>h. (h, the (seqs h))) hs)"
  by (induction hs) auto

lemma spec_loop_match_inv: "match_inv headers (spec_loop headers es)"
  unfolding spec_loop_def by (rule spec_loop_inv[OF init_inv])

lemma match_loop_eq_spec:
  assumes "dom seqs = set headers" and "build_index Map.empty headers = Inr n2h"
  shows "match_loop seqs n2h es = spec_loop headers es"
  unfolding match_loop_def spec_loop_def by (rule match_loop_spec[OF assms])

lemma set_final_headers: "set (final_headers headers es) = set headers"
  using spec_loop_match_inv[of headers es]
  by (auto simp: final_headers_def match_inv_def)

lemma main_result:
  assumes p: "reorder_parse_fasta fasta = (headers, seqs)"
    and ne: "headers \<noteq> []"
    and ok: "\<forall>h \<in> set headers. \<exists>t. first_token h = Inr t"
  shows "main fasta order_file wrap =
     Inr \<lparr>written = map (\<lambda>h. (h, the (seqs h))) (final_headers headers (read_order_list order_file)),
          out_lines = render wrap
             (map (\<lambda>h. (h, the (seqs h))) (final_headers headers (read_order_list order_file))),
          n_ordered = length (ordered_headers (spec_loop headers (read_order_list order_file))),
          appended = length (filter (\<lambda>h. h \<notin> used (spec_loop headers (read_order_list order_file))) headers),
          unmatched = not_found (spec_loop headers (read_order_list order_file))\<rparr>"
proof -
  have d: "dom seqs = set headers" by (rule parse_dom[OF p])
  from ok obtain n2h where b: "build_index Map.empty headers = Inr n2h"
    using build_index_ok[of Map.empty headers] by blast
  let ?es = "read_order_list order_file"
  have m: "match_loop seqs n2h ?es = spec_loop headers ?es"
    by (rule match_loop_eq_spec[OF d b])
  have "set (final_headers headers ?es) \<subseteq> dom seqs"
    using d by (simp add: set_final_headers)
  then have l: "lookup_all seqs (final_headers headers ?es) =
      Inr (map (\<lambda>h. (h, the (seqs h))) (final_headers headers ?es))"
    by (rule lookup_all_ok)
  show ?thesis
    using ne l by (simp add: main_def p b m Let_def final_headers_def)
qed

lemma main_no_headers:
  "fst (reorder_parse_fasta fasta) = [] \<Longrightarrow> main fasta order_file wrap = Inl (SystemExit 1)"
  by (cases "reorder_parse_fasta fasta") (simp add: main_def)

lemma main_tokenless_header:
  assumes "fst (reorder_parse_fasta fasta) \<noteq> []"
    and "\<not> (\<forall>h \<in> set (fst (reorder_parse_fasta fasta)). \<exists>t. first_token h = Inr t)"
  shows "main fasta order_file wrap = Inl IndexError"
proof -
  obtain headers seqs where p: "reorder_parse_fasta fasta = (headers, seqs)"
    by (cases "reorder_parse_fasta fasta")
  from assms(2) p have "\<not> (\<exists>n2h. build_index Map.empty headers = Inr n2h)"
    using build_index_ok[of Map.empty headers] by simp
  then obtain e where "build_index Map.empty headers = Inl e"
    by (cases "build_index Map.empty headers") auto
  moreover from this have "e = IndexError" by (rule build_index_error)
  ultimately show ?thesis using assms(1) p by (simp add: main_def)
qed

lemma mset_final_headers:
  assumes "distinct headers"
  shows "mset (final_headers headers es) = mset headers"
proof -
  let ?st = "spec_loop headers es"
  from spec_loop_match_inv[of headers es]
  have i: "distinct (ordered_headers ?st)" "used ?st = set (ordered_headers ?st)"
    "set (ordered_headers ?st) \<subseteq> set headers"
    by (simp_all add: match_inv_def)
  have "set (ordered_headers ?st) = set (filter (\<lambda>h. h \<in> used ?st) headers)"
    using i by auto
  moreover have "distinct (filter (\<lambda>h. h \<in> used ?st) headers)"
    using assms by simp
  ultimately have "mset (ordered_headers ?st) = mset (filter (\<lambda>h. h \<in> used ?st) headers)"
    using i(1) by (subst set_eq_iff_mset_eq_distinct[symmetric]) auto
  then show ?thesis
    by (simp add: final_headers_def)
qed

lemma main_written_headers:
  assumes "main fasta order_file wrap = Inr res"
  shows "map fst (written res) =
           final_headers (fst (reorder_parse_fasta fasta)) (read_order_list order_file) \<and>
         fst (reorder_parse_fasta fasta) \<noteq> [] \<and>
         (\<forall>h \<in> set (fst (reorder_parse_fasta fasta)). \<exists>t. first_token h = Inr t)"
proof -
  obtain headers seqs where p: "reorder_parse_fasta fasta = (headers, seqs)"
    by (cases "reorder_parse_fasta fasta")
  have ne: "headers \<noteq> []"
    using assms main_no_headers[of fasta order_file wrap] p by auto
  have ok: "\<forall>h \<in> set headers. \<exists>t. first_token h = Inr t"
    using assms main_tokenless_header[of fasta order_file wrap] p ne by auto
  from main_result[OF p ne ok, of order_file wrap] assms
  have "written res = map (\<lambda>h. (h, the (seqs h))) (final_headers headers (read_order_list order_file))"
    by auto
  then have "map fst (written res) = final_headers headers (read_order_list order_file)"
    by (simp add: comp_def)
  with p ne ok show ?thesis by simp
qed

lemma main_permutation:
  assumes "distinct (fst (reorder_parse_fasta fasta))"
    and "main fasta order_file wrap = Inr res"
  shows "mset (map fst (written res)) = mset (fst (reorder_parse_fasta fasta))"
    and "h \<in> set (fst (reorder_parse_fasta fasta)) \<Longrightarrow> count_list (map fst (written res)) h = 1"
proof -
  from main_written_headers[OF assms(2)]
  have w: "map fst (written res) =
       final_headers (fst (reorder_parse_fasta fasta)) (read_order_list order_file)" by simp
  show m: "mset (map fst (written res)) = mset (fst (reorder_parse_fasta fasta))"
    unfolding w by (rule mset_final_headers[OF assms(1)])
  assume h: "h \<in> set (fst (reorder_parse_fasta fasta))"
  have "count_list (map fst (written res)) h = count (mset (map fst (written res))) h"
    by (simp only: count_mset)
  also have "\<dots> = count (mset (fst (reorder_parse_fasta fasta))) h" by (simp only: m)
  also have "\<dots> = 1" using assms(1) h by (simp add: distinct_count_atmost_1)
  finally show "count_list (map fst (written res)) h = 1" .
qed

subsection \<open>Claims about matching\<close>


lemma match_loop_snoc:
  "match_loop seqs n2h (es @ [entry]) = match_entry seqs n2h (match_loop seqs n2h es) entry"
  by (simp add: match_loop_def)


text \<open>
  C3. With the headers and sequences parsed from a FASTA file and the index built from the
  headers, one pass of the matching loop resolves the entry by the policy of
  \<open>resolve_spec\<close>: (1) an entry equal to a full header that is not yet consumed chooses that
  header; (2) otherwise the first header in file order whose first whitespace-delimited
  token is the entry and that is not yet consumed is chosen; (3) otherwise the entry is
  recorded as not found. The loop starts from the empty state and handles the entries of
  the order list one after the other, each by this policy on the state the entries before
  it left, so the whole loop is the loop of the policy, \<open>spec_loop\<close>. A chosen header is
  appended to \<open>ordered_headers\<close> and added to \<open>used\<close>, so after any order list the chosen
  headers are pairwise distinct, are exactly the consumed ones, and are headers of the
  file: no two entries resolve to one header. The run of the tool writes the chosen
  headers in the order chosen, then the headers not consumed in file order, and reports the
  entries not found.
\<close>

theorem C3_resolution_policy:
  assumes "reorder_parse_fasta fasta = (headers, seqs)"
    and "build_index Map.empty headers = Inr n2h"
  shows "match_entry seqs n2h st entry =
           (case resolve_spec headers (used st) entry of
              Some h \<Rightarrow> take_header st h
            | None \<Rightarrow> miss st entry) \<and>
         match_loop seqs n2h [] = \<lparr>ordered_headers = [], used = {}, not_found = []\<rparr> \<and>
         match_loop seqs n2h (es @ [entry]) =
           (case resolve_spec headers (used (match_loop seqs n2h es)) entry of
              Some h \<Rightarrow> take_header (match_loop seqs n2h es) h
            | None \<Rightarrow> miss (match_loop seqs n2h es) entry) \<and>
         match_loop seqs n2h order_list = spec_loop headers order_list \<and>
         distinct (ordered_headers (match_loop seqs n2h order_list)) \<and>
         used (match_loop seqs n2h order_list) = set (ordered_headers (match_loop seqs n2h order_list)) \<and>
         set (ordered_headers (match_loop seqs n2h order_list)) \<subseteq> set headers \<and>
         (headers \<noteq> [] \<longrightarrow>
            (\<exists>res. main fasta order_file wrap = Inr res \<and>
               map fst (written res) =
                 ordered_headers (match_loop seqs n2h (read_order_list order_file)) @
                 filter (\<lambda>h. h \<notin> used (match_loop seqs n2h (read_order_list order_file))) headers \<and>
               n_ordered res = length (ordered_headers (match_loop seqs n2h (read_order_list order_file))) \<and>
               unmatched res = not_found (match_loop seqs n2h (read_order_list order_file))))"
proof -
  have d: "dom seqs = set headers" by (rule parse_dom[OF assms(1)])
  have me: "match_entry seqs n2h st' e =
           (case resolve_spec headers (used st') e of
              Some h \<Rightarrow> take_header st' h
            | None \<Rightarrow> miss st' e)" for st' e
    using match_entry_spec[OF d assms(2), of st' e] by (simp add: spec_step_def)
  have a: "match_loop seqs n2h [] = \<lparr>ordered_headers = [], used = {}, not_found = []\<rparr>"
    by (simp add: match_loop_def)
  have b: "match_loop seqs n2h (es @ [entry]) =
           (case resolve_spec headers (used (match_loop seqs n2h es)) entry of
              Some h \<Rightarrow> take_header (match_loop seqs n2h es) h
            | None \<Rightarrow> miss (match_loop seqs n2h es) entry)"
    unfolding match_loop_snoc by (rule me)
  have ml: "match_loop seqs n2h xs = spec_loop headers xs" for xs
    by (rule match_loop_eq_spec[OF d assms(2)])
  have inv: "match_inv headers (match_loop seqs n2h order_list)"
    unfolding ml by (rule spec_loop_match_inv)
  have m: "\<exists>res. main fasta order_file wrap = Inr res \<and>
               map fst (written res) =
                 ordered_headers (match_loop seqs n2h (read_order_list order_file)) @
                 filter (\<lambda>h. h \<notin> used (match_loop seqs n2h (read_order_list order_file))) headers \<and>
               n_ordered res = length (ordered_headers (match_loop seqs n2h (read_order_list order_file))) \<and>
               unmatched res = not_found (match_loop seqs n2h (read_order_list order_file))"
    if ne: "headers \<noteq> []"
  proof -
    have ok: "\<forall>h \<in> set headers. \<exists>t. first_token h = Inr t"
      using build_index_ok[of Map.empty headers] assms(2) by blast
    from main_result[OF assms(1) ne ok, of order_file wrap] show ?thesis
      by (simp add: ml final_headers_def comp_def)
  qed
  from me[of st entry] a b ml[of order_list] inv m show ?thesis
    by (simp add: match_inv_def)
qed

theorem C3_resolution_policy_witness:
  "\<exists>n2h. build_index Map.empty (fst (reorder_parse_fasta [''>c1 a\<newline>'', ''AC\<newline>'', ''>c1 b\<newline>'', ''GT\<newline>''])) = Inr n2h \<and>
     match_entry (snd (reorder_parse_fasta [''>c1 a\<newline>'', ''AC\<newline>'', ''>c1 b\<newline>'', ''GT\<newline>''])) n2h
        \<lparr>ordered_headers = [''c1 a''], used = {''c1 a''}, not_found = []\<rparr> ''c1'' =
     \<lparr>ordered_headers = [''c1 a'', ''c1 b''], used = {''c1 b'', ''c1 a''}, not_found = []\<rparr> \<and>
     match_entry (snd (reorder_parse_fasta [''>c1 a\<newline>'', ''AC\<newline>'', ''>c1 b\<newline>'', ''GT\<newline>''])) n2h
        \<lparr>ordered_headers = [], used = {}, not_found = []\<rparr> ''c1 b'' =
     \<lparr>ordered_headers = [''c1 b''], used = {''c1 b''}, not_found = []\<rparr> \<and>
     match_entry (snd (reorder_parse_fasta [''>c1 a\<newline>'', ''AC\<newline>'', ''>c1 b\<newline>'', ''GT\<newline>''])) n2h
        \<lparr>ordered_headers = [], used = {}, not_found = []\<rparr> ''c2'' =
     \<lparr>ordered_headers = [], used = {}, not_found = [''c2'']\<rparr> \<and>
     match_loop (snd (reorder_parse_fasta [''>c1 a\<newline>'', ''AC\<newline>'', ''>c1 b\<newline>'', ''GT\<newline>''])) n2h
        [''c1 b'', ''c2'', ''c1'', ''c1''] =
     \<lparr>ordered_headers = [''c1 b'', ''c1 a''], used = {''c1 a'', ''c1 b''}, not_found = [''c2'', ''c1'']\<rparr>"
proof -
  let ?F = "[''>c1 a\<newline>'', ''AC\<newline>'', ''>c1 b\<newline>'', ''GT\<newline>'']"
  have H: "fst (reorder_parse_fasta ?F) = [''c1 a'', ''c1 b'']"
    by code_simp
  have p: "reorder_parse_fasta ?F = ([''c1 a'', ''c1 b''], snd (reorder_parse_fasta ?F))"
    using H by (cases "reorder_parse_fasta ?F") simp
  have t: "first_token ''c1 a'' = Inr ''c1''" "first_token ''c1 b'' = Inr ''c1''"
    by code_simp+
  then have "\<forall>h \<in> set [''c1 a'', ''c1 b'']. \<exists>t. first_token h = Inr t" by simp
  then obtain n2h where b: "build_index Map.empty [''c1 a'', ''c1 b''] = Inr n2h"
    using build_index_ok[of Map.empty "[''c1 a'', ''c1 b'']"] by blast
  have r1: "resolve_spec [''c1 a'', ''c1 b''] {''c1 a''} ''c1'' = Some ''c1 b''"
    by (simp add: resolve_spec_def t)
  have r2: "resolve_spec [''c1 a'', ''c1 b''] {} ''c1 b'' = Some ''c1 b''"
    by (simp add: resolve_spec_def)
  have r3: "resolve_spec [''c1 a'', ''c1 b''] {} ''c2'' = None"
    by (simp add: resolve_spec_def t)
  have r4: "resolve_spec [''c1 a'', ''c1 b''] {''c1 b''} ''c2'' = None"
    by (simp add: resolve_spec_def t)
  have r5: "resolve_spec [''c1 a'', ''c1 b''] {''c1 b''} ''c1'' = Some ''c1 a''"
    by (simp add: resolve_spec_def t)
  have r6: "resolve_spec [''c1 a'', ''c1 b''] {''c1 a'', ''c1 b''} ''c1'' = None"
    by (simp add: resolve_spec_def t)
  have sl: "spec_loop [''c1 a'', ''c1 b''] [''c1 b'', ''c2'', ''c1'', ''c1''] =
     \<lparr>ordered_headers = [''c1 b'', ''c1 a''], used = {''c1 a'', ''c1 b''}, not_found = [''c2'', ''c1'']\<rparr>"
    by (simp add: spec_loop_def spec_step_def r2 r4 r5 r6 take_header_def miss_def)
  note c = C3_resolution_policy[OF p b]
  have e1: "match_entry (snd (reorder_parse_fasta ?F)) n2h
        \<lparr>ordered_headers = [''c1 a''], used = {''c1 a''}, not_found = []\<rparr> ''c1'' =
     \<lparr>ordered_headers = [''c1 a'', ''c1 b''], used = {''c1 b'', ''c1 a''}, not_found = []\<rparr>"
    using c[of "\<lparr>ordered_headers = [''c1 a''], used = {''c1 a''}, not_found = []\<rparr>" "''c1''"] r1
    by (simp add: take_header_def)
  have e2: "match_entry (snd (reorder_parse_fasta ?F)) n2h
        \<lparr>ordered_headers = [], used = {}, not_found = []\<rparr> ''c1 b'' =
     \<lparr>ordered_headers = [''c1 b''], used = {''c1 b''}, not_found = []\<rparr>"
    using c[of "\<lparr>ordered_headers = [], used = {}, not_found = []\<rparr>" "''c1 b''"] r2
    by (simp add: take_header_def)
  have e3: "match_entry (snd (reorder_parse_fasta ?F)) n2h
        \<lparr>ordered_headers = [], used = {}, not_found = []\<rparr> ''c2'' =
     \<lparr>ordered_headers = [], used = {}, not_found = [''c2'']\<rparr>"
    using c[of "\<lparr>ordered_headers = [], used = {}, not_found = []\<rparr>" "''c2''"] r3
    by (simp add: miss_def)
  have e4: "match_loop (snd (reorder_parse_fasta ?F)) n2h [''c1 b'', ''c2'', ''c1'', ''c1''] =
     \<lparr>ordered_headers = [''c1 b'', ''c1 a''], used = {''c1 a'', ''c1 b''}, not_found = [''c2'', ''c1'']\<rparr>"
    using c[of _ _ _ "[''c1 b'', ''c2'', ''c1'', ''c1'']"] sl by simp
  from b H e1 e2 e3 e4 show ?thesis by auto
qed

text \<open>
  C2. The file whose only marker line is the marker alone has one header, the empty
  string, so its headers are pairwise distinct; the index loop raises IndexError at
  \<^verbatim>\<open>h.split()[0]\<close> before the output file is opened, whatever the order list and the wrap
  width, and the header is written nowhere. For every run that does write its output,
  \<open>main_permutation\<close> above shows that each header of a file with pairwise distinct headers
  is written exactly once.
\<close>

theorem C2_empty_header_raises:
  "fst (reorder_parse_fasta [''>\<newline>'', ''ACGT\<newline>'']) = [[]] \<and>
   distinct (fst (reorder_parse_fasta [''>\<newline>'', ''ACGT\<newline>''])) \<and>
   main [''>\<newline>'', ''ACGT\<newline>''] order_file wrap = Inl IndexError"
proof -
  have H: "fst (reorder_parse_fasta [''>\<newline>'', ''ACGT\<newline>'']) = [[]]"
    by code_simp
  have "first_token [] = Inl IndexError" by (simp add: first_token_def split_def)
  then have "\<not> (\<forall>h \<in> set (fst (reorder_parse_fasta [''>\<newline>'', ''ACGT\<newline>''])). \<exists>t. first_token h = Inr t)"
    by (simp add: H)
  moreover have "fst (reorder_parse_fasta [''>\<newline>'', ''ACGT\<newline>'']) \<noteq> []" by (simp add: H)
  ultimately have "main [''>\<newline>'', ''ACGT\<newline>''] order_file wrap = Inl IndexError"
    by (intro main_tokenless_header)
  with H show ?thesis by simp
qed

subsection \<open>Records and the dictionary of sequences\<close>

lemma store_Nil: "store m [] = m"
  by (simp add: store_def)

lemma store_Cons: "store m ((h, s) # rs) = store (m(h \<mapsto> s)) rs"
  by (simp add: store_def)

lemma store_append: "store m (rs @ rs') = store (store m rs) rs'"
  by (simp add: store_def)

lemma store_emit:
  "store seqs (emit cur parts) = (case cur of None \<Rightarrow> seqs | Some h \<Rightarrow> seqs(h \<mapsto> concat parts))"
  by (cases cur) (simp_all add: emit_def store_Nil store_Cons)

lemma rparse_seqs:
  "snd (rparse_loop hs seqs cur parts ls) = store seqs (records_loop cur parts ls)"
proof (induction ls arbitrary: hs seqs cur parts)
  case Nil
  show ?case by (simp add: store_emit)
next
  case (Cons l ls)
  show ?case by (simp add: Let_def Cons store_append store_emit)
qed

lemma records_headers:
  "map fst (records_loop cur parts ls) =
     (case cur of None \<Rightarrow> [] | Some h \<Rightarrow> [h]) @ map header_of (filter is_marker ls)"
proof (induction ls arbitrary: cur parts)
  case Nil
  show ?case by (cases cur) (simp_all add: emit_def)
next
  case (Cons l ls)
  show ?case
    by (cases "rstrip_nl l = []"; cases cur)
       (auto simp: Let_def Cons is_marker_def header_of_def startswith_def emit_def)
qed

lemma parse_records:
  "reorder_parse_fasta fh = (map fst (fasta_records fh), store Map.empty (fasta_records fh))"
proof -
  have "fst (reorder_parse_fasta fh) = map fst (fasta_records fh)"
    by (simp add: parse_headers fasta_records_def records_headers)
  moreover have "snd (reorder_parse_fasta fh) = store Map.empty (fasta_records fh)"
    by (simp add: reorder_parse_fasta_def fasta_records_def rparse_seqs)
  ultimately show ?thesis by (cases "reorder_parse_fasta fh") simp
qed

lemma store_other: "h \<notin> fst ` set rs \<Longrightarrow> store m rs h = m h"
proof (induction rs arbitrary: m)
  case Nil
  show ?case by (simp add: store_Nil)
next
  case (Cons r rs)
  then show ?case by (cases r) (auto simp: store_Cons)
qed

lemma store_distinct:
  "distinct (map fst rs) \<Longrightarrow> (h, s) \<in> set rs \<Longrightarrow> store m rs h = Some s"
proof (induction rs arbitrary: m)
  case Nil
  then show ?case by simp
next
  case (Cons r rs)
  obtain h1 s1 where r: "r = (h1, s1)" by (cases r)
  show ?case
  proof (cases "(h, s) = (h1, s1)")
    case True
    with Cons.prems r have "h \<notin> fst ` set rs" by auto
    from store_other[OF this] True r show ?thesis by (simp add: store_Cons)
  next
    case False
    with Cons.prems r have "(h, s) \<in> set rs" "distinct (map fst rs)" by auto
    from Cons.IH[OF this(2) this(1)] r show ?thesis by (simp add: store_Cons)
  qed
qed

lemma store_records:
  assumes "distinct (map fst rs)"
  shows "map (\<lambda>h. (h, the (store m rs h))) (map fst rs) = rs"
proof -
  have "(\<lambda>r. (fst r, the (store m rs (fst r)))) r = r" if "r \<in> set rs" for r
    using store_distinct[OF assms, of "fst r" "snd r" m] that by (cases r) simp
  then have "map (\<lambda>r. (fst r, the (store m rs (fst r)))) rs = rs"
    by (intro map_idI) 
  then show ?thesis by (simp add: comp_def)
qed

lemma rstrip_last:
  "rstrip s = [] \<or> \<not> is_space (last (rstrip s))"
proof (cases "dropWhile is_space (rev s) = []")
  case True
  then show ?thesis by (simp add: rstrip_def)
next
  case False
  then have "\<not> is_space (hd (dropWhile is_space (rev s)))" by (rule hd_dropWhile)
  with False show ?thesis by (simp add: rstrip_def last_rev)
qed

lemma strip_last: "strip s = [] \<or> \<not> is_space (last (strip s))"
  unfolding strip_def by (rule rstrip_last)

lemma strip_has_nonspace: "strip s \<noteq> [] \<Longrightarrow> \<exists>c \<in> set (strip s). \<not> is_space c"
  using strip_last[of s] last_in_set[of "strip s"] by auto

lemma spec_loop_own_headers:
  "distinct (hs1 @ hs2) \<Longrightarrow> set (hs1 @ hs2) \<subseteq> set H \<Longrightarrow>
   foldl (spec_step H) \<lparr>ordered_headers = hs1, used = set hs1, not_found = nf\<rparr> hs2 =
     \<lparr>ordered_headers = hs1 @ hs2, used = set (hs1 @ hs2), not_found = nf\<rparr>"
proof (induction hs2 arbitrary: hs1)
  case Nil
  show ?case by simp
next
  case (Cons h hs2)
  from Cons.prems have "resolve_spec H (set hs1) h = Some h"
    by (simp add: resolve_spec_def)
  then have s: "spec_step H \<lparr>ordered_headers = hs1, used = set hs1, not_found = nf\<rparr> h =
      \<lparr>ordered_headers = hs1 @ [h], used = set (hs1 @ [h]), not_found = nf\<rparr>"
    by (simp add: spec_step_def take_header_def)
  from Cons.prems have "distinct ((hs1 @ [h]) @ hs2)" "set ((hs1 @ [h]) @ hs2) \<subseteq> set H" by auto
  from Cons.IH[OF this] s show ?case by simp
qed

lemma final_headers_own:
  assumes "distinct H"
  shows "final_headers H H = H"
    and "spec_loop H H = \<lparr>ordered_headers = H, used = set H, not_found = []\<rparr>"
proof -
  show s: "spec_loop H H = \<lparr>ordered_headers = H, used = set H, not_found = []\<rparr>"
    using spec_loop_own_headers[of "[]" H H "[]"] assms by (simp add: spec_loop_def)
  show "final_headers H H = H" by (simp add: final_headers_def s)
qed

subsection \<open>A second run on the output\<close>

text \<open>
  The matching loop run on the headers that a first run wrote (the chosen headers, then
  the ones left over) makes the choices of the first run again: a header chosen by its
  first token is the first unconsumed one in the new order, since the headers chosen before
  it stand before it and are consumed.
\<close>

lemma spec_step_ordered:
  "\<exists>xs. ordered_headers (spec_step H st e) = ordered_headers st @ xs"
  by (cases "resolve_spec H (used st) e") (simp_all add: spec_step_def take_header_def miss_def)

lemma spec_fold_ordered:
  "\<exists>xs. ordered_headers (foldl (spec_step H) st es) = ordered_headers st @ xs"
proof (induction es arbitrary: st)
  case Nil
  show ?case by simp
next
  case (Cons e es)
  from Cons[of "spec_step H st e"] spec_step_ordered[of H st e] show ?case by auto
qed

lemma find_skip_prefix:
  assumes "\<forall>x \<in> set xs. \<not> P x" and "P c"
  shows "find P (xs @ c # ys) = Some c"
  using assms by (induction xs) auto

lemma step_agree:
  assumes s: "set H' = set H"
    and u: "used st = set (ordered_headers st)"
    and pre: "H' = ordered_headers (spec_step H st e) @ ys"
  shows "spec_step H' st e = spec_step H st e"
proof (cases "e \<in> set H \<and> e \<notin> used st")
  case True
  then show ?thesis using s by (simp add: spec_step_def resolve_spec_def)
next
  case False
  let ?P = "\<lambda>h. first_token h = Inr e \<and> h \<notin> used st"
  have r: "resolve_spec H (used st) e = find ?P H" "resolve_spec H' (used st) e = find ?P H'"
    using False s by (auto simp: resolve_spec_def)
  show ?thesis
  proof (cases "find ?P H")
    case None
    then have "\<forall>h \<in> set H. \<not> ?P h" by (simp add: find_None_iff)
    with s have "find ?P H' = None" by (simp add: find_None_iff)
    with None r show ?thesis by (simp add: spec_step_def)
  next
    case (Some c)
    then have c: "?P c" by (auto simp: find_Some_iff)
    from Some r have "spec_step H st e = take_header st c" by (simp add: spec_step_def)
    with pre have "H' = ordered_headers st @ c # ys" by (simp add: take_header_def)
    moreover have "\<forall>x \<in> set (ordered_headers st). \<not> ?P x" using u by simp
    ultimately have "find ?P H' = Some c" using c by (simp add: find_skip_prefix)
    with Some r show ?thesis by (simp add: spec_step_def)
  qed
qed

lemma spec_step_used:
  "used st = set (ordered_headers st) \<Longrightarrow>
   used (spec_step H st e) = set (ordered_headers (spec_step H st e))"
  by (cases "resolve_spec H (used st) e") (simp_all add: spec_step_def take_header_def miss_def)

lemma loop_agree:
  assumes "set H' = set H"
  shows "used st = set (ordered_headers st) \<Longrightarrow>
     H' = ordered_headers (foldl (spec_step H) st es) @ ys \<Longrightarrow>
     foldl (spec_step H') st es = foldl (spec_step H) st es"
proof (induction es arbitrary: st)
  case Nil
  show ?case by simp
next
  case (Cons e es)
  let ?st1 = "spec_step H st e"
  obtain xs where "ordered_headers (foldl (spec_step H) ?st1 es) = ordered_headers ?st1 @ xs"
    using spec_fold_ordered[of H ?st1 es] by blast
  with Cons.prems(2) have "H' = ordered_headers ?st1 @ (xs @ ys)" by simp
  from step_agree[OF assms Cons.prems(1) this] have a: "spec_step H' st e = ?st1" .
  have u1: "used ?st1 = set (ordered_headers ?st1)" by (rule spec_step_used[OF Cons.prems(1)])
  from Cons.prems(2) have "H' = ordered_headers (foldl (spec_step H) ?st1 es) @ ys" by simp
  from Cons.IH[OF u1 this] a show ?case by simp
qed

lemma final_headers_idem:
  "final_headers (final_headers H es) es = final_headers H es"
proof -
  let ?st = "spec_loop H es"
  let ?H' = "final_headers H es"
  have inv: "used ?st = set (ordered_headers ?st)"
    using spec_loop_match_inv[of H es] by (simp add: match_inv_def)
  have s: "set ?H' = set H" by (rule set_final_headers)
  have "spec_loop ?H' es = spec_loop H es"
    unfolding spec_loop_def
    by (rule loop_agree[OF s, where ys = "filter (\<lambda>h. h \<notin> used ?st) H"])
       (simp_all add: final_headers_def spec_loop_def)
  then have "final_headers ?H' es =
      ordered_headers ?st @ filter (\<lambda>h. h \<notin> used ?st) ?H'"
    by (simp add: final_headers_def)
  also have "filter (\<lambda>h. h \<notin> used ?st) ?H' = filter (\<lambda>h. h \<notin> used ?st) H"
    using inv by (simp add: final_headers_def)
  finally show ?thesis by (simp add: final_headers_def)
qed

text \<open>
  Reading back what \<open>write_seq\<close> wrote: a stripped header comes back from its header line,
  and a line of a sequence without the marker character is no marker line.
\<close>

lemma is_space_nl: "is_space (CHR 0x0A)"
  by (simp add: is_space_def)

lemma rstrip_nl_snoc: "rstrip_nl (x @ [CHR 0x0A]) = rstrip_nl x"
  by (simp add: rstrip_nl_def)

lemma rstrip_nl_Cons: "c \<noteq> CHR 0x0A \<Longrightarrow> rstrip_nl (c # s) = c # rstrip_nl s"
  by (simp add: rstrip_nl_def dropWhile_append)

lemma set_rstrip_nl: "set (rstrip_nl s) \<subseteq> set s"
  using set_dropWhileD[of _ "\<lambda>c. c = CHR 0x0A" "rev s"] by (auto simp: rstrip_nl_def)

lemma set_strip: "set (strip s) \<subseteq> set s"
proof -
  have "set (rstrip t) \<subseteq> set t" for t
    using set_dropWhileD[of _ is_space "rev t"] by (auto simp: rstrip_def)
  moreover have "set (lstrip s) \<subseteq> set s"
    using set_dropWhileD[of _ is_space s] by (auto simp: lstrip_def)
  ultimately show ?thesis unfolding strip_def by blast
qed

lemma rstrip_prefix: "t = rstrip t @ rev (takeWhile is_space (rev t))"
proof -
  have "rev (takeWhile is_space (rev t) @ dropWhile is_space (rev t)) = rev (rev t)"
    by (simp only: takeWhile_dropWhile_id)
  then have "rev (dropWhile is_space (rev t)) @ rev (takeWhile is_space (rev t)) = t"
    by (simp only: rev_append rev_rev_ident)
  then show ?thesis by (simp only: rstrip_def)
qed

lemma strip_hd: "strip s = [] \<or> \<not> is_space (hd (strip s))"
proof (cases "strip s = []")
  case True
  then show ?thesis by simp
next
  case False
  let ?u = "lstrip s"
  from False have t: "rstrip ?u \<noteq> []" by (simp add: strip_def)
  from rstrip_prefix[of ?u] t have "hd ?u = hd (rstrip ?u)"
    by (metis hd_append2)
  moreover from rstrip_prefix[of ?u] t have "?u \<noteq> []" by auto
  then have "\<not> is_space (hd ?u)" unfolding lstrip_def by (rule hd_dropWhile)
  ultimately show ?thesis by (simp add: strip_def)
qed

lemma strip_fixed:
  assumes "t = [] \<or> (\<not> is_space (hd t) \<and> \<not> is_space (last t))"
  shows "strip t = t"
proof (cases "t = []")
  case True
  then show ?thesis by (simp add: strip_def lstrip_def rstrip_def)
next
  case False
  with assms have h: "\<not> is_space (hd t)" and l: "\<not> is_space (last t)" by auto
  from False h have "lstrip t = t" by (cases t) (simp_all add: lstrip_def)
  moreover from False l have "rstrip t = t"
    by (cases t rule: rev_cases) (simp_all add: rstrip_def)
  ultimately show ?thesis by (simp add: strip_def)
qed

lemma strip_strip: "strip (strip s) = strip s"
  using strip_hd[of s] strip_last[of s] by (intro strip_fixed) auto

lemma stripped_rstrip_nl:
  assumes "strip h = h"
  shows "rstrip_nl h = h"
proof (cases "h = []")
  case True
  then show ?thesis by (simp add: rstrip_nl_def)
next
  case False
  with strip_last[of h] assms have "\<not> is_space (last h)" by simp
  with is_space_nl have "last h \<noteq> CHR 0x0A" by auto
  with False show ?thesis by (cases h rule: rev_cases) (simp_all add: rstrip_nl_def)
qed

lemma header_line:
  assumes "strip h = h"
  shows "is_marker (CHR ''>'' # h @ [CHR 0x0A])"
    and "header_of (CHR ''>'' # h @ [CHR 0x0A]) = h"
proof -
  have "rstrip_nl (CHR ''>'' # h @ [CHR 0x0A]) = CHR ''>'' # h"
    using rstrip_nl_snoc[of "CHR ''>'' # h"] rstrip_nl_Cons[of "CHR ''>''" h]
      stripped_rstrip_nl[OF assms] by simp
  then show "is_marker (CHR ''>'' # h @ [CHR 0x0A])"
    and "header_of (CHR ''>'' # h @ [CHR 0x0A]) = h"
    using assms by (simp_all add: is_marker_def header_of_def startswith_def)
qed

lemma body_line:
  assumes "CHR ''>'' \<notin> set c"
  shows "\<not> is_marker (c @ [CHR 0x0A])"
proof
  assume "is_marker (c @ [CHR 0x0A])"
  then have "startswith (rstrip_nl c) (CHR ''>'')"
    by (simp add: is_marker_def rstrip_nl_snoc)
  then have "CHR ''>'' \<in> set (rstrip_nl c)"
    by (cases "rstrip_nl c") (simp_all add: startswith_def)
  with set_rstrip_nl[of c] assms show False by auto
qed

lemma set_chunks: "c \<in> set (chunks s w) \<Longrightarrow> set c \<subseteq> set s"
proof -
  assume "c \<in> set (chunks s w)"
  then obtain k where "c = take w (drop (k * w) s)" by (auto simp: chunks_eq)
  then show ?thesis
    using set_take_subset[of w "drop (k * w) s"] set_drop_subset[of "k * w" s] by blast
qed

lemma filter_marker_write_seq:
  assumes "strip h = h" and "CHR ''>'' \<notin> set s"
  shows "filter is_marker (write_seq h s wrap) = [CHR ''>'' # h @ [CHR 0x0A]]"
proof -
  have "\<not> is_marker b" if "b \<in> set (tl (write_seq h s wrap))" for b
  proof -
    from that obtain c where "b = c @ [CHR 0x0A]" "set c \<subseteq> set s"
      using set_chunks[of _ s "nat wrap"] by (auto simp: write_seq_def split: if_splits)
    with assms(2) have "CHR ''>'' \<notin> set c" by auto
    from body_line[OF this] \<open>b = c @ [CHR 0x0A]\<close> show ?thesis by simp
  qed
  then have "filter is_marker (tl (write_seq h s wrap)) = []"
    by (simp add: filter_empty_conv)
  moreover have "write_seq h s wrap = (CHR ''>'' # h @ [CHR 0x0A]) # tl (write_seq h s wrap)"
    by (simp add: write_seq_def)
  ultimately show ?thesis using header_line(1)[OF assms(1)]
    by (metis filter.simps(2))
qed

lemma headers_render:
  assumes "\<forall>r \<in> set recs. strip (fst r) = fst r \<and> CHR ''>'' \<notin> set (snd r)"
  shows "map header_of (filter is_marker (render wrap recs)) = map fst recs"
  using assms
proof (induction recs)
  case Nil
  show ?case by (simp add: render_def)
next
  case (Cons r recs)
  obtain h s where r: "r = (h, s)" by (cases r)
  with Cons.prems have a: "strip h = h" "CHR ''>'' \<notin> set s" by auto
  have "render wrap (r # recs) = write_seq h s wrap @ render wrap recs"
    by (simp add: render_def r)
  with filter_marker_write_seq[OF a, of wrap] header_line(2)[OF a(1)] Cons show ?case
    by (simp add: r)
qed

lemma records_clean:
  assumes "\<forall>l \<in> set ls. \<not> is_marker l \<longrightarrow> CHR ''>'' \<notin> set l"
    and "\<forall>p \<in> set parts. CHR ''>'' \<notin> set p"
    and "\<forall>h. cur = Some h \<longrightarrow> strip h = h"
  shows "\<forall>r \<in> set (records_loop cur parts ls). strip (fst r) = fst r \<and> CHR ''>'' \<notin> set (snd r)"
  using assms
proof (induction ls arbitrary: cur parts)
  case Nil
  then show ?case by (cases cur) (auto simp: emit_def)
next
  case (Cons l ls)
  have e: "\<forall>r \<in> set (emit cur parts). strip (fst r) = fst r \<and> CHR ''>'' \<notin> set (snd r)"
    using Cons.prems(2,3) by (cases cur) (auto simp: emit_def)
  from Cons.prems(1) have ls: "\<forall>l \<in> set ls. \<not> is_marker l \<longrightarrow> CHR ''>'' \<notin> set l" by simp
  show ?case
  proof (cases "rstrip_nl l = []")
    case True
    with Cons.IH[OF ls Cons.prems(2,3)] show ?thesis by simp
  next
    case False
    show ?thesis
    proof (cases "startswith (rstrip_nl l) (CHR ''>'')")
      case True
      have "\<forall>h. Some (strip (tl (rstrip_nl l))) = Some h \<longrightarrow> strip h = h"
        by (simp add: strip_strip)
      from Cons.IH[OF ls _ this, of "[]"] e False True show ?thesis
        by (auto simp: Let_def)
    next
      case nm: False
      then have "\<not> is_marker l" by (simp add: is_marker_def)
      with Cons.prems(1) have "CHR ''>'' \<notin> set l" by simp
      with set_strip[of "rstrip_nl l"] set_rstrip_nl[of l]
      have "CHR ''>'' \<notin> set (strip (rstrip_nl l))" by auto
      with Cons.prems(2) have "\<forall>p \<in> set (parts @ [strip (rstrip_nl l)]). CHR ''>'' \<notin> set p"
        by simp
      from Cons.IH[OF ls this Cons.prems(3)] False nm show ?thesis
        by (simp add: Let_def)
    qed
  qed
qed

lemma store_in:
  "store m rs h = Some s \<Longrightarrow> (h, s) \<in> set rs \<or> m h = Some s"
proof (induction rs arbitrary: m)
  case Nil
  then show ?case by (simp add: store_Nil)
next
  case (Cons r rs)
  obtain h1 s1 where r: "r = (h1, s1)" by (cases r)
  from Cons.prems r have "store (m(h1 \<mapsto> s1)) rs h = Some s" by (simp add: store_Cons)
  from Cons.IH[OF this] r show ?case by (auto split: if_splits)
qed

subsection \<open>Order files made of the headers of the file\<close>

text \<open>
  The header lines of a FASTA file, taken as an order file, are read back as the headers
  of the file; so are the headers written one per line without the marker, when none of
  them is empty or begins with \<open>#\<close> or the marker.
\<close>

lemma rstrip_snoc_nl: "rstrip (x @ [CHR 0x0A]) = rstrip x"
  by (simp add: rstrip_def is_space_nl)

lemma stripped_rstrip:
  assumes "strip h = h"
  shows "rstrip h = h"
proof (cases "h = []")
  case True
  then show ?thesis by (simp add: rstrip_def)
next
  case False
  with strip_last[of h] assms have "\<not> is_space (last h)" by simp
  with False show ?thesis by (cases h rule: rev_cases) (simp_all add: rstrip_def)
qed

lemma stripped_line:
  assumes "strip h = h" and "h \<noteq> []"
  shows "strip (h @ [CHR 0x0A]) = h"
proof -
  from strip_hd[of h] assms have "\<not> is_space (hd h)" by simp
  with assms(2) have "lstrip (h @ [CHR 0x0A]) = h @ [CHR 0x0A]"
    by (cases h) (simp_all add: lstrip_def)
  then show ?thesis
    by (simp add: strip_def rstrip_snoc_nl stripped_rstrip[OF assms(1)])
qed

lemma stripped_marker_line:
  assumes "strip h = h"
  shows "strip (CHR ''>'' # h @ [CHR 0x0A]) = CHR ''>'' # h"
proof -
  have l: "lstrip (CHR ''>'' # h @ [CHR 0x0A]) = CHR ''>'' # h @ [CHR 0x0A]"
    by (simp add: lstrip_def not_space_marker)
  have "rstrip (CHR ''>'' # h) = CHR ''>'' # rstrip h"
    by (simp add: rstrip_def dropWhile_append not_space_marker)
  with rstrip_snoc_nl[of "CHR ''>'' # h"] stripped_rstrip[OF assms]
  have "rstrip (CHR ''>'' # h @ [CHR 0x0A]) = CHR ''>'' # h" by simp
  with l show ?thesis by (simp add: strip_def)
qed

lemma read_order_list_marker_lines:
  assumes "\<forall>h \<in> set hs. strip h = h"
  shows "read_order_list (map (\<lambda>h. CHR ''>'' # h @ [CHR 0x0A]) hs) = hs"
  using assms
proof (induction hs)
  case Nil
  show ?case by simp
next
  case (Cons h hs)
  then have h: "strip h = h" by simp
  from Cons show ?case
    by (simp add: stripped_marker_line[OF h] startswith_def h)
qed

lemma read_order_list_plain_lines:
  assumes "\<forall>h \<in> set hs. strip h = h \<and> h \<noteq> [] \<and> hd h \<noteq> CHR ''#'' \<and> hd h \<noteq> CHR ''>''"
  shows "read_order_list (map (\<lambda>h. h @ [CHR 0x0A]) hs) = hs"
  using assms
proof (induction hs)
  case Nil
  show ?case by simp
next
  case (Cons h hs)
  then have h: "strip h = h" "h \<noteq> []" "hd h \<noteq> CHR ''#''" "hd h \<noteq> CHR ''>''" by simp_all
  have s: "strip (h @ [CHR 0x0A]) = h" by (rule stripped_line[OF h(1,2)])
  have "\<not> startswith h (CHR ''#'')" "\<not> startswith h (CHR ''>'')"
    using h by (cases h; simp add: startswith_def)+
  with Cons h(2) show ?case
    by (simp add: s Let_def del: append.simps)
qed

lemma fasta_headers_stripped:
  "r \<in> set (fasta_records fasta) \<Longrightarrow> strip (fst r) = fst r"
proof -
  assume "r \<in> set (fasta_records fasta)"
  then have "fst r \<in> set (map fst (fasta_records fasta))" by simp
  then have "fst r \<in> set (map header_of (filter is_marker fasta))"
    by (simp add: fasta_records_def records_headers)
  then obtain l where "fst r = strip (tl (rstrip_nl l))" by (auto simp: header_of_def)
  then show ?thesis by (simp add: strip_strip)
qed

lemma read_order_list_own_marker_lines:
  "read_order_list (map (\<lambda>r. CHR ''>'' # fst r @ [CHR 0x0A]) (fasta_records fasta)) =
     map fst (fasta_records fasta)"
  using read_order_list_marker_lines[of "map fst (fasta_records fasta)"]
    fasta_headers_stripped[of _ fasta]
  by (simp add: comp_def)

subsection \<open>Reading back the records written\<close>

lemma plain_rstrip_nl:
  assumes "\<forall>x \<in> set c. plain_char x"
  shows "rstrip_nl c = c"
proof (cases c rule: rev_cases)
  case Nil
  then show ?thesis by (simp add: rstrip_nl_def)
next
  case (snoc ys y)
  with assms have "\<not> is_space y" by (simp add: plain_char_def)
  with is_space_nl have "y \<noteq> CHR 0x0A" by auto
  with snoc show ?thesis by (simp add: rstrip_nl_def)
qed

lemma plain_strip:
  assumes "\<forall>x \<in> set c. plain_char x"
  shows "strip c = c"
proof (cases "c = []")
  case True
  then show ?thesis by (simp add: strip_fixed)
next
  case False
  then have "hd c \<in> set c" "last c \<in> set c" by simp_all
  with assms have "\<not> is_space (hd c)" "\<not> is_space (last c)" by (auto simp: plain_char_def)
  then show ?thesis by (intro strip_fixed) simp
qed

lemma records_header_line:
  assumes "strip h = h"
  shows "records_loop cur parts ((CHR ''>'' # h @ [CHR 0x0A]) # rest) =
           emit cur parts @ records_loop (Some h) [] rest"
proof -
  have "rstrip_nl (CHR ''>'' # h @ [CHR 0x0A]) = CHR ''>'' # h"
    using rstrip_nl_snoc[of "CHR ''>'' # h"] rstrip_nl_Cons[of "CHR ''>''" h]
      stripped_rstrip_nl[OF assms] by simp
  then show ?thesis using assms by (simp add: startswith_def)
qed

lemma records_body_lines:
  assumes "\<forall>c \<in> set cs. \<forall>x \<in> set c. plain_char x"
  shows "records_loop cur parts (map (\<lambda>c. c @ [CHR 0x0A]) cs @ rest) =
           records_loop cur (parts @ filter (\<lambda>c. c \<noteq> []) cs) rest"
  using assms
proof (induction cs arbitrary: parts)
  case Nil
  show ?case by simp
next
  case (Cons c cs)
  then have pc: "\<forall>x \<in> set c. plain_char x" and pcs: "\<forall>c \<in> set cs. \<forall>x \<in> set c. plain_char x"
    by simp_all
  have r: "rstrip_nl (c @ [CHR 0x0A]) = c"
    using plain_rstrip_nl[OF pc] by (simp add: rstrip_nl_snoc)
  show ?case
  proof (cases "c = []")
    case True
    with Cons.IH[OF pcs, of parts] r show ?thesis by simp
  next
    case False
    then have "hd c \<in> set c" by simp
    with pc have "hd c \<noteq> CHR ''>''" by (auto simp: plain_char_def)
    with False have ns: "\<not> startswith c (CHR ''>'')" by (cases c) (simp_all add: startswith_def)
    from Cons.IH[OF pcs, of "parts @ [c]"] False ns r plain_strip[OF pc] show ?thesis
      by simp
  qed
qed

lemma concat_filter_nonempty: "concat (filter (\<lambda>c. c \<noteq> []) cs) = concat cs"
  by (induction cs) auto

lemma write_seq_body:
  "\<exists>cs. write_seq h s wrap = (CHR ''>'' # h @ [CHR 0x0A]) # map (\<lambda>c. c @ [CHR 0x0A]) cs \<and>
        concat cs = s \<and> (\<forall>c \<in> set cs. set c \<subseteq> set s)"
proof (cases "0 < wrap")
  case True
  then have "write_seq h s wrap =
      (CHR ''>'' # h @ [CHR 0x0A]) # map (\<lambda>c. c @ [CHR 0x0A]) (chunks s (nat wrap))"
    by (simp add: write_seq_def)
  moreover from True have "concat (chunks s (nat wrap)) = s" by (intro concat_chunks) simp
  moreover have "\<forall>c \<in> set (chunks s (nat wrap)). set c \<subseteq> set s" using set_chunks by blast
  ultimately show ?thesis by blast
next
  case False
  then have "write_seq h s wrap = (CHR ''>'' # h @ [CHR 0x0A]) # map (\<lambda>c. c @ [CHR 0x0A]) [s]"
    by (simp add: write_seq_def)
  then show ?thesis by (intro exI[of _ "[s]"]) simp
qed

lemma records_render:
  assumes "\<forall>r \<in> set R. strip (fst r) = fst r \<and> (\<forall>x \<in> set (snd r). plain_char x)"
  shows "records_loop cur parts (render wrap R) = emit cur parts @ R"
  using assms
proof (induction R arbitrary: cur parts)
  case Nil
  show ?case by (simp add: render_def)
next
  case (Cons r R)
  obtain h s where r: "r = (h, s)" by (cases r)
  with Cons.prems have h: "strip h = h" and s: "\<forall>x \<in> set s. plain_char x"
    and R: "\<forall>r \<in> set R. strip (fst r) = fst r \<and> (\<forall>x \<in> set (snd r). plain_char x)"
    by auto
  obtain cs where w: "write_seq h s wrap = (CHR ''>'' # h @ [CHR 0x0A]) # map (\<lambda>c. c @ [CHR 0x0A]) cs"
    and cc: "concat cs = s" and sub: "\<forall>c \<in> set cs. set c \<subseteq> set s"
    using write_seq_body[of h s wrap] by blast
  from sub s have pcs: "\<forall>c \<in> set cs. \<forall>x \<in> set c. plain_char x" by blast
  have "render wrap (r # R) =
      (CHR ''>'' # h @ [CHR 0x0A]) # (map (\<lambda>c. c @ [CHR 0x0A]) cs @ render wrap R)"
    by (simp add: render_def r w)
  then have "records_loop cur parts (render wrap (r # R)) =
      emit cur parts @ records_loop (Some h) [] (map (\<lambda>c. c @ [CHR 0x0A]) cs @ render wrap R)"
    by (simp only: records_header_line[OF h])
  also have "\<dots> = emit cur parts @ records_loop (Some h) (filter (\<lambda>c. c \<noteq> []) cs) (render wrap R)"
    using records_body_lines[OF pcs, of "Some h" "[]" "render wrap R"] by simp
  also have "\<dots> = emit cur parts @ emit (Some h) (filter (\<lambda>c. c \<noteq> []) cs) @ R"
    by (simp only: Cons.IH[OF R])
  also have "\<dots> = emit cur parts @ r # R"
    by (simp add: emit_def concat_filter_nonempty cc r)
  finally show ?case .
qed

lemma records_plain:
  assumes "\<forall>l \<in> set ls. \<not> is_marker l \<longrightarrow> (\<forall>c \<in> set (strip (rstrip_nl l)). plain_char c)"
    and "\<forall>p \<in> set parts. \<forall>c \<in> set p. plain_char c"
    and "\<forall>h. cur = Some h \<longrightarrow> strip h = h"
  shows "\<forall>r \<in> set (records_loop cur parts ls).
           strip (fst r) = fst r \<and> (\<forall>x \<in> set (snd r). plain_char x)"
  using assms
proof (induction ls arbitrary: cur parts)
  case Nil
  then show ?case by (cases cur) (auto simp: emit_def)
next
  case (Cons l ls)
  have e: "\<forall>r \<in> set (emit cur parts). strip (fst r) = fst r \<and> (\<forall>x \<in> set (snd r). plain_char x)"
    using Cons.prems(2,3) by (cases cur) (auto simp: emit_def)
  from Cons.prems(1)
  have ls: "\<forall>l \<in> set ls. \<not> is_marker l \<longrightarrow> (\<forall>c \<in> set (strip (rstrip_nl l)). plain_char c)"
    by simp
  show ?case
  proof (cases "rstrip_nl l = []")
    case True
    with Cons.IH[OF ls Cons.prems(2,3)] show ?thesis by simp
  next
    case False
    show ?thesis
    proof (cases "startswith (rstrip_nl l) (CHR ''>'')")
      case True
      have "\<forall>h. Some (strip (tl (rstrip_nl l))) = Some h \<longrightarrow> strip h = h"
        by (simp add: strip_strip)
      from Cons.IH[OF ls _ this, of "[]"] e False True show ?thesis
        by (auto simp: Let_def)
    next
      case nm: False
      then have "\<not> is_marker l" by (simp add: is_marker_def)
      with Cons.prems(1) have "\<forall>c \<in> set (strip (rstrip_nl l)). plain_char c" by simp
      with Cons.prems(2)
      have "\<forall>p \<in> set (parts @ [strip (rstrip_nl l)]). \<forall>c \<in> set p. plain_char c"
        by simp
      from Cons.IH[OF ls this Cons.prems(3)] False nm show ?thesis
        by (simp add: Let_def)
    qed
  qed
qed


subsection \<open>Claims about the whole run\<close>

text \<open>
  C7, as stated, fails, in three ways. (1) A FASTA file with two records of the same header
  \<open>a\<close> and the order list made of its own header lines: the dictionary keeps one sequence
  for \<open>a\<close>, the first entry consumes \<open>a\<close>, the second finds nothing left, and the output
  holds the single record \<open>(a, GT)\<close>, not the two records of the input. (2) A sequence line
  that begins with the marker after a blank is read as sequence, but written back it is a
  marker line: the output of the two records \<open>b\<close> and \<open>c\<close> holds three. (3) A blank inside
  a sequence line is kept in the sequence, but where the wrap width puts it at the end of an
  output line it is stripped when the output is read: the sequence \<open>AC GT\<close> comes back as
  \<open>ACGT\<close>.
\<close>

theorem C7_round_trip_counterexample:
  "fasta_records [''>a\<newline>'', ''AC\<newline>'', ''>a\<newline>'', ''GT\<newline>''] = [(''a'', ''AC''), (''a'', ''GT'')] \<and>
   read_order_list [''>a\<newline>'', ''>a\<newline>''] =
     map fst (fasta_records [''>a\<newline>'', ''AC\<newline>'', ''>a\<newline>'', ''GT\<newline>'']) \<and>
   main [''>a\<newline>'', ''AC\<newline>'', ''>a\<newline>'', ''GT\<newline>''] [''>a\<newline>'', ''>a\<newline>''] 60 =
     Inr \<lparr>written = [(''a'', ''GT'')], out_lines = [''>a\<newline>'', ''GT\<newline>''],
          n_ordered = 1, appended = 0, unmatched = [''a'']\<rparr> \<and>
   [(''a'', ''GT'')] \<noteq> fasta_records [''>a\<newline>'', ''AC\<newline>'', ''>a\<newline>'', ''GT\<newline>''] \<and>
   fasta_records [''>b\<newline>'', '' >a\<newline>'', ''>c\<newline>''] = [(''b'', ''>a''), (''c'', [])] \<and>
   read_order_list [''>b\<newline>'', ''>c\<newline>''] =
     map fst (fasta_records [''>b\<newline>'', '' >a\<newline>'', ''>c\<newline>'']) \<and>
   main [''>b\<newline>'', '' >a\<newline>'', ''>c\<newline>''] [''>b\<newline>'', ''>c\<newline>''] 60 =
     Inr \<lparr>written = [(''b'', ''>a''), (''c'', [])], out_lines = [''>b\<newline>'', ''>a\<newline>'', ''>c\<newline>''],
          n_ordered = 2, appended = 0, unmatched = []\<rparr> \<and>
   fasta_records [''>b\<newline>'', ''>a\<newline>'', ''>c\<newline>''] = [(''b'', []), (''a'', []), (''c'', [])] \<and>
   fasta_records [''>b\<newline>'', ''>a\<newline>'', ''>c\<newline>''] \<noteq> fasta_records [''>b\<newline>'', '' >a\<newline>'', ''>c\<newline>''] \<and>
   fasta_records [''>a\<newline>'', ''AC GT\<newline>''] = [(''a'', ''AC GT'')] \<and>
   read_order_list [''>a\<newline>''] = map fst (fasta_records [''>a\<newline>'', ''AC GT\<newline>'']) \<and>
   main [''>a\<newline>'', ''AC GT\<newline>''] [''>a\<newline>''] 3 =
     Inr \<lparr>written = [(''a'', ''AC GT'')], out_lines = [''>a\<newline>'', ''AC \<newline>'', ''GT\<newline>''],
          n_ordered = 1, appended = 0, unmatched = []\<rparr> \<and>
   fasta_records [''>a\<newline>'', ''AC \<newline>'', ''GT\<newline>''] = [(''a'', ''ACGT'')] \<and>
   fasta_records [''>a\<newline>'', ''AC \<newline>'', ''GT\<newline>''] \<noteq> fasta_records [''>a\<newline>'', ''AC GT\<newline>'']"
  by code_simp


text \<open>
  C7, amended. For every FASTA file with at least one record, whose headers are pairwise
  distinct and non-empty and whose sequence lines hold neither the marker nor whitespace
  inside, the run with an order list equal to the headers of the file in file order writes
  exactly the records of the file, in file order and with their sequences; the output
  lines are these records rendered by \<open>write_seq\<close> at the wrap width, and they read back as
  the records of the input, with the same headers in the same order; every record counts
  as ordered, none is appended and no entry is unmatched. The header lines of the file are
  such an order list (\<open>read_order_list_own_marker_lines\<close>).
\<close>

theorem C7_round_trip_distinct_headers:
  assumes "fasta_records fasta \<noteq> []"
    and "distinct (map fst (fasta_records fasta))"
    and "\<forall>r \<in> set (fasta_records fasta). fst r \<noteq> []"
    and "\<forall>l \<in> set fasta. \<not> is_marker l \<longrightarrow> (\<forall>c \<in> set (strip (rstrip_nl l)). plain_char c)"
    and "read_order_list order_file = map fst (fasta_records fasta)"
  shows "main fasta order_file wrap =
     Inr \<lparr>written = fasta_records fasta, out_lines = render wrap (fasta_records fasta),
          n_ordered = length (fasta_records fasta), appended = 0, unmatched = []\<rparr> \<and>
     fasta_records (render wrap (fasta_records fasta)) = fasta_records fasta \<and>
     fst (reorder_parse_fasta (render wrap (fasta_records fasta))) = map fst (fasta_records fasta)"
proof -
  let ?R = "fasta_records fasta"
  let ?H = "map fst ?R"
  have p: "reorder_parse_fasta fasta = (?H, store Map.empty ?R)" by (rule parse_records)
  have ne: "?H \<noteq> []" using assms(1) by simp
  have ok: "\<forall>h \<in> set ?H. \<exists>t. first_token h = Inr t"
  proof
    fix h assume h: "h \<in> set ?H"
    with assms(3) have "h \<noteq> []" by auto
    moreover from h have "h \<in> set (map header_of (filter is_marker fasta))"
      using p by (simp add: parse_headers[symmetric])
    then obtain l where "h = strip (tl (rstrip_nl l))" by (auto simp: header_of_def)
    ultimately have "\<exists>c \<in> set h. \<not> is_space c" using strip_has_nonspace by blast
    then show "\<exists>t. first_token h = Inr t" by (simp add: first_token_Inr_iff)
  qed
  have w: "map (\<lambda>h. (h, the (store Map.empty ?R h))) ?H = ?R"
    by (rule store_records[OF assms(2)])
  then have w': "map ((\<lambda>h. (h, the (store Map.empty ?R h))) \<circ> fst) ?R = ?R"
    by simp
  from main_result[OF p ne ok, of order_file wrap]
  have m: "main fasta order_file wrap =
     Inr \<lparr>written = ?R, out_lines = render wrap ?R,
          n_ordered = length ?R, appended = 0, unmatched = []\<rparr>"
    by (simp add: assms(5) final_headers_own[OF assms(2)] w')
  have pl: "\<forall>r \<in> set ?R. strip (fst r) = fst r \<and> (\<forall>x \<in> set (snd r). plain_char x)"
    unfolding fasta_records_def by (rule records_plain[OF assms(4)]) simp_all
  have rr: "fasta_records (render wrap ?R) = ?R"
    using records_render[OF pl, of None "[]" wrap] by (simp add: fasta_records_def emit_def)
  have "fst (reorder_parse_fasta (render wrap ?R)) = map fst (fasta_records (render wrap ?R))"
    by (simp add: parse_records)
  with rr have hh: "fst (reorder_parse_fasta (render wrap ?R)) = ?H" by simp
  from m rr hh show ?thesis by (intro conjI)
qed

theorem C7_round_trip_distinct_headers_witness:
  "fasta_records [''>c1 x\<newline>'', ''ACGT\<newline>'', ''AC\<newline>'', ''>c2\<newline>'', ''GG\<newline>''] =
     [(''c1 x'', ''ACGTAC''), (''c2'', ''GG'')] \<and>
   read_order_list [''>c1 x\<newline>'', ''>c2\<newline>''] = [''c1 x'', ''c2''] \<and>
   main [''>c1 x\<newline>'', ''ACGT\<newline>'', ''AC\<newline>'', ''>c2\<newline>'', ''GG\<newline>''] [''>c1 x\<newline>'', ''>c2\<newline>''] 4 =
     Inr \<lparr>written = [(''c1 x'', ''ACGTAC''), (''c2'', ''GG'')],
          out_lines = [''>c1 x\<newline>'', ''ACGT\<newline>'', ''AC\<newline>'', ''>c2\<newline>'', ''GG\<newline>''],
          n_ordered = 2, appended = 0, unmatched = []\<rparr> \<and>
   fasta_records [''>c1 x\<newline>'', ''ACGT\<newline>'', ''AC\<newline>'', ''>c2\<newline>'', ''GG\<newline>''] =
     [(''c1 x'', ''ACGTAC''), (''c2'', ''GG'')]"
proof -
  let ?F = "[''>c1 x\<newline>'', ''ACGT\<newline>'', ''AC\<newline>'', ''>c2\<newline>'', ''GG\<newline>'']"
  let ?O = "[''>c1 x\<newline>'', ''>c2\<newline>'']"
  have R: "fasta_records ?F = [(''c1 x'', ''ACGTAC''), (''c2'', ''GG'')]"
    by code_simp
  have O: "read_order_list ?O = [''c1 x'', ''c2'']"
    by code_simp
  have r: "render 4 [(''c1 x'', ''ACGTAC''), (''c2'', ''GG'')] =
      [''>c1 x\<newline>'', ''ACGT\<newline>'', ''AC\<newline>'', ''>c2\<newline>'', ''GG\<newline>'']"
    by code_simp
  have h1: "fasta_records ?F \<noteq> []" by (simp add: R)
  have h2: "distinct (map fst (fasta_records ?F))" by (simp add: R)
  have h3: "\<forall>r \<in> set (fasta_records ?F). fst r \<noteq> []" by (simp add: R)
  have h4: "\<forall>l \<in> set ?F. \<not> is_marker l \<longrightarrow> (\<forall>c \<in> set (strip (rstrip_nl l)). plain_char c)"
    by code_simp
  have h5: "read_order_list ?O = map fst (fasta_records ?F)" unfolding R O by simp
  note t = C7_round_trip_distinct_headers[OF h1 h2 h3 h4 h5, of 4]
  have m: "main ?F ?O 4 =
     Inr \<lparr>written = [(''c1 x'', ''ACGTAC''), (''c2'', ''GG'')],
          out_lines = [''>c1 x\<newline>'', ''ACGT\<newline>'', ''AC\<newline>'', ''>c2\<newline>'', ''GG\<newline>''],
          n_ordered = 2, appended = 0, unmatched = []\<rparr>"
    using t by (simp only: R r) simp
  have rr: "fasta_records [''>c1 x\<newline>'', ''ACGT\<newline>'', ''AC\<newline>'', ''>c2\<newline>'', ''GG\<newline>''] =
     [(''c1 x'', ''ACGTAC''), (''c2'', ''GG'')]"
    using t by (simp only: R r)
  from R O m rr show ?thesis by (intro conjI)
qed

text \<open>
  C8, as stated, fails. A sequence line may begin with the marker after a blank: it is read
  as sequence, but written back it is a marker line. The first run writes the records
  \<open>b\<close> and \<open>c\<close>; its output reads as the three headers \<open>b, a, c\<close>, and the second run with
  the same order list \<open>a\<close> writes \<open>a, b, c\<close>.
\<close>

theorem C8_marker_in_sequence_counterexample:
  "main [''>b\<newline>'', '' >a\<newline>'', ''>c\<newline>''] [''a\<newline>''] 60 =
     Inr \<lparr>written = [(''b'', ''>a''), (''c'', [])], out_lines = [''>b\<newline>'', ''>a\<newline>'', ''>c\<newline>''],
          n_ordered = 0, appended = 2, unmatched = [''a'']\<rparr> \<and>
   main [''>b\<newline>'', ''>a\<newline>'', ''>c\<newline>''] [''a\<newline>''] 60 =
     Inr \<lparr>written = [(''a'', []), (''b'', []), (''c'', [])], out_lines = [''>a\<newline>'', ''>b\<newline>'', ''>c\<newline>''],
          n_ordered = 1, appended = 2, unmatched = []\<rparr> \<and>
   map fst [(''a'', []), (''b'', []), (''c'', [])] \<noteq> map fst [(''b'', ''>a''), (''c'', [])] \<and>
   map fst [(''a'', []), (''b'', []), (''c'', [])] \<noteq>
     fst (reorder_parse_fasta [''>b\<newline>'', ''>a\<newline>'', ''>c\<newline>''])"
  by code_simp

text \<open>
  C8, amended. For every FASTA file in which no line other than the marker lines holds the
  marker character, and every order list and wrap width: when the first run writes its
  output, the second run on that output with the same order list and wrap width writes its
  output too, and the headers of the records it writes are, in order, the headers of the
  records the first run wrote, which are also the headers read from the first output.
\<close>

theorem C8_idempotent_record_order:
  assumes "main fasta order_file wrap = Inr r1"
    and "\<forall>l \<in> set fasta. \<not> is_marker l \<longrightarrow> CHR ''>'' \<notin> set l"
  shows "\<exists>r2. main (out_lines r1) order_file wrap = Inr r2 \<and>
           map fst (written r2) = map fst (written r1) \<and>
           fst (reorder_parse_fasta (out_lines r1)) = map fst (written r1)"
proof -
  let ?R = "fasta_records fasta"
  let ?H = "map fst ?R"
  let ?es = "read_order_list order_file"
  let ?H' = "final_headers ?H ?es"
  have p: "reorder_parse_fasta fasta = (?H, store Map.empty ?R)" by (rule parse_records)
  from main_written_headers[OF assms(1)] p
  have ne: "?H \<noteq> []" and ok: "\<forall>h \<in> set ?H. \<exists>t. first_token h = Inr t" by simp_all
  from main_result[OF p ne ok, of order_file wrap] assms(1)
  have w: "written r1 = map (\<lambda>h. (h, the (store Map.empty ?R h))) ?H'"
    and o: "out_lines r1 = render wrap (written r1)"
    by auto
  have clean: "\<forall>r \<in> set ?R. strip (fst r) = fst r \<and> CHR ''>'' \<notin> set (snd r)"
    unfolding fasta_records_def by (rule records_clean[OF assms(2)]) simp_all
  have wclean: "\<forall>r \<in> set (written r1). strip (fst r) = fst r \<and> CHR ''>'' \<notin> set (snd r)"
  proof
    fix r assume "r \<in> set (written r1)"
    with w obtain h where h: "h \<in> set ?H'" and r: "r = (h, the (store Map.empty ?R h))" by auto
    from h have "h \<in> set ?H" by (simp add: set_final_headers)
    then have "h \<in> dom (store Map.empty ?R)" using parse_dom[OF p] by simp
    then obtain s where s: "store Map.empty ?R h = Some s" by auto
    from store_in[OF s] have "(h, s) \<in> set ?R" by simp
    with clean r s show "strip (fst r) = fst r \<and> CHR ''>'' \<notin> set (snd r)" by auto
  qed
  have wh: "map fst (written r1) = ?H'" by (simp add: w comp_def)
  have h1: "fst (reorder_parse_fasta (out_lines r1)) = ?H'"
    unfolding parse_headers o headers_render[OF wclean] by (rule wh)
  obtain seqs1 where p1: "reorder_parse_fasta (out_lines r1) = (?H', seqs1)"
    using h1 by (cases "reorder_parse_fasta (out_lines r1)") simp
  have s': "set ?H' = set ?H" by (rule set_final_headers)
  from ne s' have ne1: "?H' \<noteq> []" by auto
  from ok s' have ok1: "\<forall>h \<in> set ?H'. \<exists>t. first_token h = Inr t" by simp
  let ?r2 = "\<lparr>written = map (\<lambda>h. (h, the (seqs1 h))) (final_headers ?H' ?es),
          out_lines = render wrap (map (\<lambda>h. (h, the (seqs1 h))) (final_headers ?H' ?es)),
          n_ordered = length (ordered_headers (spec_loop ?H' ?es)),
          appended = length (filter (\<lambda>h. h \<notin> used (spec_loop ?H' ?es)) ?H'),
          unmatched = not_found (spec_loop ?H' ?es)\<rparr>"
  have m2: "main (out_lines r1) order_file wrap = Inr ?r2"
    by (rule main_result[OF p1 ne1 ok1])
  have "map fst (written ?r2) = final_headers ?H' ?es" by (simp add: comp_def)
  also have "\<dots> = ?H'" by (rule final_headers_idem)
  finally have "map fst (written ?r2) = map fst (written r1)" using wh by simp
  with m2 h1 wh show ?thesis by auto
qed

theorem C8_idempotent_record_order_witness:
  "(\<forall>l \<in> set [''>c1 x\<newline>'', ''ACGT\<newline>'', ''AC\<newline>'', ''>c2\<newline>'', ''GG\<newline>'', ''>c3\<newline>'', ''T\<newline>'']. \<not> is_marker l \<longrightarrow> CHR ''>'' \<notin> set l) = True \<and>
   main [''>c1 x\<newline>'', ''ACGT\<newline>'', ''AC\<newline>'', ''>c2\<newline>'', ''GG\<newline>'', ''>c3\<newline>'', ''T\<newline>''] [''c3\<newline>'', ''c1\<newline>''] 4 =
     Inr \<lparr>written = [(''c3'', ''T''), (''c1 x'', ''ACGTAC''), (''c2'', ''GG'')],
          out_lines = [''>c3\<newline>'', ''T\<newline>'', ''>c1 x\<newline>'', ''ACGT\<newline>'', ''AC\<newline>'', ''>c2\<newline>'', ''GG\<newline>''],
          n_ordered = 2, appended = 1, unmatched = []\<rparr> \<and>
   (\<exists>r2. main [''>c3\<newline>'', ''T\<newline>'', ''>c1 x\<newline>'', ''ACGT\<newline>'', ''AC\<newline>'', ''>c2\<newline>'', ''GG\<newline>''] [''c3\<newline>'', ''c1\<newline>''] 4 = Inr r2 \<and>
      map fst (written r2) = [''c3'', ''c1 x'', ''c2''])"
proof -
  let ?F = "[''>c1 x\<newline>'', ''ACGT\<newline>'', ''AC\<newline>'', ''>c2\<newline>'', ''GG\<newline>'', ''>c3\<newline>'', ''T\<newline>'']"
  let ?O = "[''c3\<newline>'', ''c1\<newline>'']"
  let ?r1 = "\<lparr>written = [(''c3'', ''T''), (''c1 x'', ''ACGTAC''), (''c2'', ''GG'')],
          out_lines = [''>c3\<newline>'', ''T\<newline>'', ''>c1 x\<newline>'', ''ACGT\<newline>'', ''AC\<newline>'', ''>c2\<newline>'', ''GG\<newline>''],
          n_ordered = 2, appended = 1, unmatched = []\<rparr>"
  have h: "\<forall>l \<in> set ?F. \<not> is_marker l \<longrightarrow> CHR ''>'' \<notin> set l"
    by (simp add: is_marker_def rstrip_nl_def startswith_def)
  have m: "main ?F ?O 4 = Inr ?r1" by code_simp
  from C8_idempotent_record_order[OF m h]
  obtain r2 where "main (out_lines ?r1) ?O 4 = Inr r2" "map fst (written r2) = map fst (written ?r1)"
    by blast
  then have e: "\<exists>r2. main [''>c3\<newline>'', ''T\<newline>'', ''>c1 x\<newline>'', ''ACGT\<newline>'', ''AC\<newline>'', ''>c2\<newline>'', ''GG\<newline>''] ?O 4 = Inr r2 \<and>
      map fst (written r2) = [''c3'', ''c1 x'', ''c2'']"
    by simp
  from h have "(\<forall>l \<in> set ?F. \<not> is_marker l \<longrightarrow> CHR ''>'' \<notin> set l) = True" by (simp only: simp_thms)
  with m e show ?thesis by (intro conjI)
qed

end
